theory Spec2Isabelle
  imports Complex_Main "HOL-Library.Multiset" "HOL-Library.Product_Lexorder" "HOL-Library.AList"
begin

section \<open>Values shared by the modules\<close>

text \<open>
  The exceptions the modelled functions can raise.  \<open>GTFError\<close> carries the message
  built by \<open>Transfrag.parse_gtf\<close>.
\<close>

datatype py_error = IndexError | KeyError | GTFError string

text \<open>
  The strand constants of \<open>assemblyline.lib.transcript\<close>.  They index the two-element
  lists \<open>total_scores\<close>, \<open>ref_bp\<close>, \<open>ref_strands\<close>, \<open>strand_ref_transcripts\<close>
  (positions 0 and 1) and the three-element lists \<open>scores\<close> and
  \<open>strand_transcript_lists\<close> (positions 0, 1 and 2).
\<close>

datatype strand = POS_STRAND | NEG_STRAND | NO_STRAND

type_synonym node = "int \<times> int"

text \<open>
  A transcript object.  The functions below read \<open>t.strand\<close>, \<open>t.exons\<close>,
  \<open>t.score\<close> and two entries of \<open>t.attrs\<close>: the transcript identifier and the
  reference flag \<open>bool(int(t.attrs.get(GTFAttr.REF, "0")))\<close>, kept here as the fields
  \<open>t_id\<close> and \<open>is_ref\<close>.  Scores are Python floats, read as real numbers.
\<close>

record transcript =
  chrom :: string
  strand :: strand
  exons :: "node list"
  score :: real
  t_id :: string
  is_ref :: bool

text \<open>Sequencing of computations that may raise.\<close>

definition bind_res :: "py_error + 'a \<Rightarrow> ('a \<Rightarrow> py_error + 'b) \<Rightarrow> py_error + 'b" where
  "bind_res m f = (case m of Inl e \<Rightarrow> Inl e | Inr x \<Rightarrow> f x)"

fun map_res :: "('a \<Rightarrow> py_error + 'b) \<Rightarrow> 'a list \<Rightarrow> py_error + 'b list" where
  "map_res f [] = Inr []"
| "map_res f (x # xs) =
     bind_res (f x) (\<lambda>y. bind_res (map_res f xs) (\<lambda>ys. Inr (y # ys)))"

fun fold_res :: "('a \<Rightarrow> 's \<Rightarrow> py_error + 's) \<Rightarrow> 'a list \<Rightarrow> 's \<Rightarrow> py_error + 's" where
  "fold_res f [] s = Inr s"
| "fold_res f (x # xs) s = bind_res (f x s) (fold_res f xs)"

text \<open>
  Python list indexing \<open>xs[i]\<close>: position \<open>i\<close> from the front, position \<open>len(xs) + i\<close>
  for \<open>-len(xs) \<le> i < 0\<close>, and \<open>IndexError\<close> outside both ranges.
\<close>

definition py_index :: "'a list \<Rightarrow> int \<Rightarrow> py_error + 'a" where
  "py_index xs i =
     (if 0 \<le> i \<and> i < int (length xs) then Inr (xs ! nat i)
      else if i < 0 \<and> - int (length xs) \<le> i then Inr (xs ! nat (int (length xs) + i))
      else Inl IndexError)"

section \<open>Boundary indexer and exon splitter (transcript\_graph.py)\<close>

text \<open>\<open>bisect.bisect_right\<close> and \<open>bisect.bisect_left\<close> of the standard library.\<close>

function bisect_right_loop :: "int list \<Rightarrow> int \<Rightarrow> nat \<Rightarrow> nat \<Rightarrow> nat" where
  "bisect_right_loop a x lo hi =
     (if lo < hi then
        (let mid = (lo + hi) div 2
         in if x < a ! mid then bisect_right_loop a x lo mid
            else bisect_right_loop a x (mid + 1) hi)
      else lo)"
  by pat_completeness auto
termination
  by (relation "measure (\<lambda>(a, x, lo, hi). hi - lo)") auto

function bisect_left_loop :: "int list \<Rightarrow> int \<Rightarrow> nat \<Rightarrow> nat \<Rightarrow> nat" where
  "bisect_left_loop a x lo hi =
     (if lo < hi then
        (let mid = (lo + hi) div 2
         in if a ! mid < x then bisect_left_loop a x (mid + 1) hi
            else bisect_left_loop a x lo mid)
      else lo)"
  by pat_completeness auto
termination
  by (relation "measure (\<lambda>(a, x, lo, hi). hi - lo)") auto

declare bisect_right_loop.simps [simp del]
declare bisect_left_loop.simps [simp del]

definition bisect_right :: "int list \<Rightarrow> int \<Rightarrow> nat" where
  "bisect_right a x = bisect_right_loop a x 0 (length a)"

definition bisect_left :: "int list \<Rightarrow> int \<Rightarrow> nat" where
  "bisect_left a x = bisect_left_loop a x 0 (length a)"

text \<open>
  \<open>find_exon_boundaries\<close>: the set of all exon starts and ends, sorted.
\<close>

definition exon_coords :: "transcript list \<Rightarrow> int list" where
  "exon_coords transcripts =
     concat (map (\<lambda>t. concat (map (\<lambda>exon. [fst exon, snd exon]) (exons t))) transcripts)"

definition find_exon_boundaries :: "transcript list \<Rightarrow> int list" where
  "find_exon_boundaries transcripts = sorted_list_of_set (set (exon_coords transcripts))"

text \<open>
  \<open>split_exon\<close>: the generator, read as the list of the pairs it yields, or the
  exception raised by one of its list accesses.  \<open>xrange(start_ind, end_ind - 1)\<close> is
  \<open>[start_ind .. end_ind - 2]\<close>.
\<close>

definition split_exon :: "node \<Rightarrow> int list \<Rightarrow> py_error + node list" where
  "split_exon exon boundaries =
     (if fst exon = snd exon then Inr []
      else
        (let start_ind = int (bisect_right boundaries (fst exon));
             end_ind = int (bisect_left boundaries (snd exon))
         in if start_ind = end_ind then Inr [(fst exon, snd exon)]
            else
              bind_res (py_index boundaries start_ind) (\<lambda>b0.
              bind_res (map_res (\<lambda>j. bind_res (py_index boundaries j) (\<lambda>l.
                                      bind_res (py_index boundaries (j + 1)) (\<lambda>r. Inr (l, r))))
                                [start_ind .. end_ind - 2]) (\<lambda>mids.
              bind_res (py_index boundaries (end_ind - 1)) (\<lambda>bl.
              Inr ((fst exon, b0) # mids @ [(bl, snd exon)]))))))"

text \<open>The boundaries strictly inside an exon, in list order.\<close>

abbreviation interior :: "int \<Rightarrow> int \<Rightarrow> int list \<Rightarrow> int list" where
  "interior s e bs \<equiv> filter (\<lambda>b. s < b \<and> b < e) bs"

text \<open>\<open>split_exons\<close>: the nodes of all exons of a transcript, in exon order.\<close>

definition split_exons :: "transcript \<Rightarrow> int list \<Rightarrow> py_error + node list" where
  "split_exons t boundaries =
     bind_res (map_res (\<lambda>exon. split_exon exon boundaries) (exons t)) (\<lambda>ns. Inr (concat ns))"

section \<open>Strand resolver (transcript\_graph.py)\<close>

text \<open>
  The per-node dictionary \<open>{'ref_strands': [False, False], 'scores': [0.0, 0.0, 0.0]}\<close>:
  one field for each list position, named after the strand constant that indexes it.
\<close>

record node_data_entry =
  ref_pos :: bool
  ref_neg :: bool
  score_pos :: real
  score_neg :: real
  score_no :: real

definition node_data_func :: node_data_entry where
  "node_data_func =
     \<lparr>ref_pos = False, ref_neg = False, score_pos = 0, score_neg = 0, score_no = 0\<rparr>"

text \<open>
  \<open>node_data\<close> is a \<open>collections.defaultdict(node_data_func)\<close>: reading a missing key
  stores the default entry under that key and returns it.
\<close>

type_synonym node_dict = "node \<rightharpoonup> node_data_entry"

definition nd_getitem :: "node_dict \<Rightarrow> node \<Rightarrow> node_data_entry \<times> node_dict" where
  "nd_getitem node_data n =
     (case node_data n of
        Some nd \<Rightarrow> (nd, node_data)
      | None \<Rightarrow> (node_data_func, node_data(n \<mapsto> node_data_func)))"

text \<open>The entry that a read \<open>node_data[n]\<close> returns.\<close>

definition nd_read :: "node_dict \<Rightarrow> node \<Rightarrow> node_data_entry" where
  "nd_read node_data n = fst (nd_getitem node_data n)"

text \<open>The running totals \<open>total_scores\<close> and \<open>ref_bp\<close> of \<open>resolve_strand\<close>.\<close>

record strand_votes =
  total_pos :: real
  total_neg :: real
  ref_bp_pos :: int
  ref_bp_neg :: int

definition resolve_step :: "node \<Rightarrow> strand_votes \<times> node_dict \<Rightarrow> strand_votes \<times> node_dict" where
  "resolve_step n acc =
     (let len = snd n - fst n;
          (nd, node_data) = nd_getitem (snd acc) n;
          v = fst acc
      in (\<lparr>total_pos = total_pos v + score_pos nd * real_of_int len,
           total_neg = total_neg v + score_neg nd * real_of_int len,
           ref_bp_pos = (if ref_pos nd then ref_bp_pos v + len else ref_bp_pos v),
           ref_bp_neg = (if ref_neg nd then ref_bp_neg v + len else ref_bp_neg v)\<rparr>,
          node_data))"

text \<open>
  \<open>resolve_strand\<close>.  \<open>FLOAT_PRECISION\<close> is defined in \<open>assemblyline.lib.base\<close>,
  which is not among the sources; it is the parameter \<open>eps\<close>.  The function returns
  the strand; the dictionary is returned too because the reads may have added keys.
\<close>

definition resolve_strand :: "real \<Rightarrow> node list \<Rightarrow> node_dict \<Rightarrow> strand \<times> node_dict" where
  "resolve_strand eps nodes_iter node_data =
     (let (v, node_data') =
            fold resolve_step nodes_iter
              (\<lparr>total_pos = 0, total_neg = 0, ref_bp_pos = 0, ref_bp_neg = 0\<rparr>, node_data)
      in (if total_pos v + total_neg v > eps then
            (if total_pos v \<ge> total_neg v then POS_STRAND else NEG_STRAND)
          else if ref_bp_pos v + ref_bp_neg v > 0 then
            (if ref_bp_pos v \<ge> ref_bp_neg v then POS_STRAND else NEG_STRAND)
          else NO_STRAND,
          node_data'))"

text \<open>
  The state of \<open>partition_transcripts_by_strand\<close>.  The transcript objects of the input
  list are addressed by their position; \<open>objs\<close> holds their current field values, and
  the bucket lists hold positions, as the Python lists hold references.
\<close>

record resolver_state =
  objs :: "transcript list"
  node_data :: node_dict
  strand_transcript_lists :: "strand \<Rightarrow> nat list"
  strand_ref_transcripts :: "nat list \<times> nat list"

text \<open>\<open>node_data[n]['scores'][t.strand] += t.score\<close>\<close>

definition add_score :: "node_dict \<Rightarrow> node \<Rightarrow> strand \<Rightarrow> real \<Rightarrow> node_dict" where
  "add_score nd_dict n s x =
     (let (nd, nd_dict') = nd_getitem nd_dict n
      in nd_dict'(n \<mapsto> (case s of
           POS_STRAND \<Rightarrow> nd\<lparr>score_pos := score_pos nd + x\<rparr>
         | NEG_STRAND \<Rightarrow> nd\<lparr>score_neg := score_neg nd + x\<rparr>
         | NO_STRAND \<Rightarrow> nd\<lparr>score_no := score_no nd + x\<rparr>)))"

text \<open>\<open>node_data[n]['ref_strands'][t.strand] = True\<close>: the list has two positions.\<close>

definition set_ref_strand :: "strand \<Rightarrow> node \<Rightarrow> node_dict \<Rightarrow> py_error + node_dict" where
  "set_ref_strand s n nd_dict =
     (let (nd, nd_dict') = nd_getitem nd_dict n
      in case s of
           POS_STRAND \<Rightarrow> Inr (nd_dict'(n \<mapsto> nd\<lparr>ref_pos := True\<rparr>))
         | NEG_STRAND \<Rightarrow> Inr (nd_dict'(n \<mapsto> nd\<lparr>ref_neg := True\<rparr>))
         | NO_STRAND \<Rightarrow> Inl IndexError)"

text \<open>\<open>strand_ref_transcripts[t.strand].append(t)\<close>: the list has two positions.\<close>

definition append_ref :: "strand \<Rightarrow> nat \<Rightarrow> nat list \<times> nat list \<Rightarrow> py_error + nat list \<times> nat list" where
  "append_ref s i refs =
     (case s of
        POS_STRAND \<Rightarrow> Inr (fst refs @ [i], snd refs)
      | NEG_STRAND \<Rightarrow> Inr (fst refs, snd refs @ [i])
      | NO_STRAND \<Rightarrow> Inl IndexError)"

text \<open>The inner function \<open>add_transcript\<close>, for the object at position \<open>i\<close>.\<close>

definition add_transcript :: "nat \<Rightarrow> node list \<Rightarrow> resolver_state \<Rightarrow> resolver_state" where
  "add_transcript i nodes_iter st =
     (let t = objs st ! i
      in st\<lparr>node_data := fold (\<lambda>n nd_dict. add_score nd_dict n (strand t) (score t))
                              nodes_iter (node_data st),
            strand_transcript_lists :=
              (strand_transcript_lists st)
                (strand t := strand_transcript_lists st (strand t) @ [i])\<rparr>)"

text \<open>The body of the first loop (lines 132--143), for the object at position \<open>i\<close>.\<close>

definition classify ::
  "int list \<Rightarrow> nat \<Rightarrow> resolver_state \<times> nat list \<Rightarrow> py_error + resolver_state \<times> nat list" where
  "classify boundaries i acc =
     (let st = fst acc; unresolved_transcripts = snd acc; t = objs st ! i
      in if is_ref t then
           bind_res (split_exons t boundaries) (\<lambda>nodes.
           bind_res (fold_res (set_ref_strand (strand t)) nodes (node_data st)) (\<lambda>nd_dict.
           bind_res (append_ref (strand t) i (strand_ref_transcripts st)) (\<lambda>refs.
           Inr (st\<lparr>node_data := nd_dict, strand_ref_transcripts := refs\<rparr>,
                unresolved_transcripts))))
         else if strand t \<noteq> NO_STRAND then
           bind_res (split_exons t boundaries) (\<lambda>nodes.
           Inr (add_transcript i nodes st, unresolved_transcripts))
         else Inr (st, unresolved_transcripts @ [i]))"

text \<open>
  The body of the loop of lines 152--159.  The accumulator is the state, \<open>resolved\<close>,
  \<open>still_unresolved_transcripts\<close> and \<open>unresolved_nodes\<close>.
\<close>

definition resolve_one ::
  "real \<Rightarrow> int list \<Rightarrow> nat \<Rightarrow> resolver_state \<times> nat list \<times> nat list \<times> node set
     \<Rightarrow> py_error + resolver_state \<times> nat list \<times> nat list \<times> node set" where
  "resolve_one eps boundaries i acc =
     (case acc of (st, resolved, still_unresolved_transcripts, unresolved_nodes) \<Rightarrow>
        bind_res (split_exons (objs st ! i) boundaries) (\<lambda>nodes.
          let (s, nd_dict) = resolve_strand eps nodes (node_data st);
              st' = st\<lparr>objs := (objs st)[i := (objs st ! i)\<lparr>strand := s\<rparr>],
                       node_data := nd_dict\<rparr>
          in if s \<noteq> NO_STRAND then
               Inr (st', resolved @ [i], still_unresolved_transcripts, unresolved_nodes)
             else
               Inr (st', resolved, still_unresolved_transcripts @ [i],
                    unresolved_nodes \<union> set nodes)))"

text \<open>The body of the loop of lines 160--162.\<close>

definition add_resolved :: "int list \<Rightarrow> nat \<Rightarrow> resolver_state \<Rightarrow> py_error + resolver_state" where
  "add_resolved boundaries i st =
     bind_res (split_exons (objs st ! i) boundaries) (\<lambda>nodes. Inr (add_transcript i nodes st))"

text \<open>Lines 148--163: the result is the state, the new \<open>unresolved_transcripts\<close> and
  \<open>unresolved_nodes\<close>.\<close>

definition resolve_unstranded ::
  "real \<Rightarrow> int list \<Rightarrow> resolver_state \<Rightarrow> nat list
     \<Rightarrow> py_error + resolver_state \<times> nat list \<times> node set" where
  "resolve_unstranded eps boundaries st unresolved_transcripts =
     (if length unresolved_transcripts > 0 then
        bind_res (fold_res (resolve_one eps boundaries) unresolved_transcripts (st, [], [], {}))
          (\<lambda>(st1, resolved, still_unresolved_transcripts, unresolved_nodes).
        bind_res (fold_res (add_resolved boundaries) resolved st1) (\<lambda>st2.
        Inr (st2, still_unresolved_transcripts, unresolved_nodes)))
      else Inr (st, unresolved_transcripts, {}))"

text \<open>
  \<open>ClusterTree(0, 1)\<close> of \<open>assemblyline.lib.bx.cluster\<close> is not among the sources.
  The functions below take \<open>getregions\<close> as a parameter: from the list of the inserted
  \<open>(start, end, id)\<close> triples to the list of \<open>(start, end, indexes)\<close> regions.
\<close>

type_synonym cluster_fun = "(int \<times> int \<times> nat) list \<Rightarrow> (int \<times> int \<times> nat list) list"

text \<open>\<open>unresolved_nodes[i]\<close> for a non-negative index.\<close>

definition nth_res :: "'a list \<Rightarrow> nat \<Rightarrow> py_error + 'a" where
  "nth_res xs i = (if i < length xs then Inr (xs ! i) else Inl IndexError)"

text \<open>The body of the loop of lines 177--181.\<close>

definition assign_region ::
  "real \<Rightarrow> node list \<Rightarrow> int \<times> int \<times> nat list \<Rightarrow> (node \<rightharpoonup> strand) \<times> node_dict
     \<Rightarrow> py_error + (node \<rightharpoonup> strand) \<times> node_dict" where
  "assign_region eps unresolved_nodes region acc =
     bind_res (map_res (nth_res unresolved_nodes) (snd (snd region))) (\<lambda>nodes.
       let (s, nd_dict) = resolve_strand eps nodes (snd acc)
       in Inr (fold (\<lambda>n node_strand_map. node_strand_map(n \<mapsto> s)) nodes (fst acc), nd_dict))"

text \<open>Lines 171--181: the sorted node list, the cluster tree and \<open>node_strand_map\<close>.\<close>

definition cluster_strands ::
  "real \<Rightarrow> cluster_fun \<Rightarrow> node set \<Rightarrow> node_dict \<Rightarrow> py_error + (node \<rightharpoonup> strand) \<times> node_dict" where
  "cluster_strands eps getregions unresolved_node_set nd_dict =
     (let unresolved_nodes = sorted_list_of_set unresolved_node_set;
          inserted = map (\<lambda>(i, n). (fst n, snd n, i)) (enumerate 0 unresolved_nodes)
      in fold_res (assign_region eps unresolved_nodes) (getregions inserted) (Map.empty, nd_dict))"

text \<open>\<open>strand_bp\<close> of lines 186--191; \<open>node_strand_map[n]\<close> raises on a missing key.\<close>

definition strand_bp_step ::
  "(node \<rightharpoonup> strand) \<Rightarrow> node \<Rightarrow> int \<times> int \<Rightarrow> py_error + int \<times> int" where
  "strand_bp_step node_strand_map n strand_bp =
     (case node_strand_map n of
        None \<Rightarrow> Inl KeyError
      | Some POS_STRAND \<Rightarrow> Inr (fst strand_bp + (snd n - fst n), snd strand_bp)
      | Some NEG_STRAND \<Rightarrow> Inr (fst strand_bp, snd strand_bp + (snd n - fst n))
      | Some NO_STRAND \<Rightarrow> Inr strand_bp)"

text \<open>The body of the loop of lines 185--200 (\<open>unresolved_count\<close> is only logged).\<close>

definition assign_one ::
  "int list \<Rightarrow> (node \<rightharpoonup> strand) \<Rightarrow> nat \<Rightarrow> resolver_state \<Rightarrow> py_error + resolver_state" where
  "assign_one boundaries node_strand_map i st =
     bind_res (split_exons (objs st ! i) boundaries) (\<lambda>nodes.
     bind_res (fold_res (strand_bp_step node_strand_map) nodes (0, 0)) (\<lambda>strand_bp.
       let st' = (if fst strand_bp + snd strand_bp > 0 then
                    st\<lparr>objs := (objs st)[i := (objs st ! i)
                          \<lparr>strand := (if fst strand_bp \<ge> snd strand_bp
                                      then POS_STRAND else NEG_STRAND)\<rparr>]\<rparr>
                  else st)
       in Inr (add_transcript i nodes st')))"

text \<open>Lines 164--203.\<close>

definition resolve_clusters ::
  "real \<Rightarrow> cluster_fun \<Rightarrow> int list \<Rightarrow> resolver_state \<Rightarrow> nat list \<Rightarrow> node set
     \<Rightarrow> py_error + resolver_state" where
  "resolve_clusters eps getregions boundaries st unresolved_transcripts unresolved_nodes =
     (if length unresolved_transcripts > 0 then
        bind_res (cluster_strands eps getregions unresolved_nodes (node_data st))
          (\<lambda>(node_strand_map, nd_dict).
        fold_res (assign_one boundaries node_strand_map) unresolved_transcripts
          (st\<lparr>node_data := nd_dict\<rparr>))
      else Inr st)"

text \<open>
  \<open>partition_transcripts_by_strand\<close>.  Besides the two returned lists, the result
  carries the transcript objects as they are when the function returns.
\<close>

definition partition_transcripts_by_strand ::
  "real \<Rightarrow> cluster_fun \<Rightarrow> transcript list
     \<Rightarrow> py_error + transcript list \<times> (strand \<Rightarrow> nat list) \<times> (nat list \<times> nat list)" where
  "partition_transcripts_by_strand eps getregions transcripts =
     (let boundaries = find_exon_boundaries transcripts;
          st0 = \<lparr>objs = transcripts, node_data = Map.empty,
                 strand_transcript_lists = (\<lambda>s. []), strand_ref_transcripts = ([], [])\<rparr>
      in bind_res (fold_res (classify boundaries) [0..<length transcripts] (st0, []))
           (\<lambda>(st1, unresolved_transcripts).
         bind_res (resolve_unstranded eps boundaries st1 unresolved_transcripts)
           (\<lambda>(st2, still_unresolved, unresolved_nodes).
         bind_res (resolve_clusters eps getregions boundaries st2 still_unresolved unresolved_nodes)
           (\<lambda>st3.
         Inr (objs st3, strand_transcript_lists st3, strand_ref_transcripts st3)))))"

text \<open>
  Modelled from the spec: \<open>ClusterTree(0, 1).getregions\<close>, which is not among the
  sources.  Section 6 of the specification: the groups are the maximal sets of touching
  or overlapping intervals.  The intervals are inserted in sorted order, so an interval
  joins the last region when it starts no later than that region ends.
\<close>

fun merge_interval ::
  "int \<times> int \<times> nat \<Rightarrow> (int \<times> int \<times> nat list) list \<Rightarrow> (int \<times> int \<times> nat list) list" where
  "merge_interval (s, e, i) [] = [(s, e, [i])]"
| "merge_interval (s, e, i) ((rs, re, ids) # rest) =
     (if s \<le> re then (min rs s, max re e, ids @ [i]) # rest
      else (s, e, [i]) # (rs, re, ids) # rest)"

definition cluster_regions :: cluster_fun where
  "cluster_regions inserted = rev (fold merge_interval inserted [])"

section \<open>Graph builder (transcript\_graph.py)\<close>

text \<open>
  The \<open>networkx.DiGraph\<close> as far as \<open>create_directed_graph\<close> uses it: the node
  dictionary with the two attributes of each node, in insertion order, the edges, and
  the graph attribute \<open>'boundaries'\<close>.
\<close>

record node_attrs =
  NODE_LENGTH :: int
  NODE_SCORE :: real

record digraph =
  g_nodes :: "(node \<times> node_attrs) list"
  g_edges :: "(node \<times> node) list"
  g_boundaries :: "int list"

text \<open>The inner function \<open>add_node_directed\<close>.\<close>

definition add_node_directed :: "digraph \<Rightarrow> node \<Rightarrow> real \<Rightarrow> digraph" where
  "add_node_directed G n sc =
     (let G1 = (if n \<notin> fst ` set (g_nodes G) then
                  G\<lparr>g_nodes := g_nodes G @ [(n, \<lparr>NODE_LENGTH = snd n - fst n, NODE_SCORE = 0\<rparr>)]\<rparr>
                else G)
      in G1\<lparr>g_nodes := AList.map_entry n (\<lambda>nd. nd\<lparr>NODE_SCORE := NODE_SCORE nd + sc\<rparr>)
                            (g_nodes G1)\<rparr>)"

text \<open>\<open>G.add_edge(u, v)\<close>; both ends were added as nodes just before.\<close>

definition add_edge :: "digraph \<Rightarrow> node \<Rightarrow> node \<Rightarrow> digraph" where
  "add_edge G u v = G\<lparr>g_edges := List.insert (u, v) (g_edges G)\<rparr>"

text \<open>The body of the loop of lines 230--234; the accumulator is the graph and \<open>u\<close>.\<close>

definition add_path_step :: "node list \<Rightarrow> real \<Rightarrow> nat \<Rightarrow> digraph \<times> node \<Rightarrow> digraph \<times> node" where
  "add_path_step nodes sc i acc =
     (let v = nodes ! i
      in (add_edge (add_node_directed (fst acc) v sc) (snd acc) v, v))"

text \<open>The body of the loop of lines 220--234; \<open>nodes[0]\<close> raises on an empty list.\<close>

definition add_transcript_nodes ::
  "strand \<Rightarrow> int list \<Rightarrow> transcript \<Rightarrow> digraph \<Rightarrow> py_error + digraph" where
  "add_transcript_nodes strand_arg boundaries t G =
     bind_res (split_exons t boundaries) (\<lambda>split_nodes.
       let nodes = (if strand_arg = NEG_STRAND then rev split_nodes else split_nodes)
       in bind_res (py_index nodes 0) (\<lambda>u.
            Inr (fst (fold (add_path_step nodes (score t)) [1..<length nodes]
                        (add_node_directed G u (score t), u)))))"

definition create_directed_graph :: "strand \<Rightarrow> transcript list \<Rightarrow> py_error + digraph" where
  "create_directed_graph strand_arg transcripts =
     (let boundaries = find_exon_boundaries transcripts
      in bind_res (fold_res (add_transcript_nodes strand_arg boundaries) transcripts
                     \<lparr>g_nodes = [], g_edges = [], g_boundaries = []\<rparr>)
           (\<lambda>G. Inr (G\<lparr>g_boundaries := boundaries\<rparr>)))"


section \<open>GTF parsing (lib2/transfrag.py)\<close>










section \<open>Path mapper (transcript\_graph.py, \<open>create_transcript_graphs\<close>)\<close>

text \<open>
  A \<open>TranscriptGraph\<close>.  \<open>partial_paths\<close> is a \<open>defaultdict(lambda: 0.0)\<close> from path
  tuples to scores.  Collapsed nodes are exons, as the nodes are.
\<close>

record transcript_graph =
  tg_chrom :: string
  tg_strand :: strand
  Gsub :: "node list"
  partial_paths :: "node list \<rightharpoonup> real"

text \<open>
  \<open>trim_graph\<close>, \<open>collapse_strand_specific_graph\<close> and the connected components come
  from modules that are not among the sources.  Their results are parameters of the
  functions below: the set \<open>trim_nodes\<close>, the dictionary \<open>node_chain_map\<close> and the
  dictionary \<open>node_subgraph_map\<close>.

  The body of the loop of lines 304--310.  \<open>subgraph_node_map\<close> is a
  \<open>defaultdict(lambda: set())\<close>, kept as a list of key-value pairs in insertion order.
\<close>

definition bin_node ::
  "node set \<Rightarrow> (node \<rightharpoonup> node) \<Rightarrow> (node \<rightharpoonup> nat) \<Rightarrow> node \<Rightarrow> (nat \<times> node set) list
     \<Rightarrow> py_error + (nat \<times> node set) list" where
  "bin_node trim_nodes node_chain_map node_subgraph_map n subgraph_node_map =
     (if n \<in> trim_nodes then Inr subgraph_node_map
      else
        (case node_chain_map n of
           None \<Rightarrow> Inl KeyError
         | Some cn \<Rightarrow>
             (case node_subgraph_map cn of
                None \<Rightarrow> Inl KeyError
              | Some subgraph_id \<Rightarrow>
                  Inr (if subgraph_id \<in> fst ` set subgraph_node_map
                       then AList.map_entry subgraph_id (insert cn) subgraph_node_map
                       else subgraph_node_map @ [(subgraph_id, {cn})]))))"

text \<open>
  \<open>sorted(subgraph_nodes, key=operator.attrgetter('start'), reverse=(strand == NEG_STRAND))\<close>.
  The order in which Python puts two nodes of one set with the same start is not
  determined by the code; here they are taken in the order of their ends.
\<close>

definition path_tuple :: "strand \<Rightarrow> node set \<Rightarrow> node list" where
  "path_tuple strand_arg subgraph_nodes =
     (if strand_arg = NEG_STRAND then rev (sort_key fst (sorted_list_of_set subgraph_nodes))
      else sort_key fst (sorted_list_of_set subgraph_nodes))"

text \<open>\<open>tg.partial_paths[tuple(subgraph_nodes)] += t.score\<close>\<close>

definition add_score_to_path :: "transcript_graph \<Rightarrow> node list \<Rightarrow> real \<Rightarrow> transcript_graph" where
  "add_score_to_path tg path sc =
     tg\<lparr>partial_paths := (partial_paths tg)
           (path \<mapsto> (case partial_paths tg path of None \<Rightarrow> 0 | Some v \<Rightarrow> v) + sc)\<rparr>"

text \<open>The body of the loop of lines 312--317.\<close>

definition add_partial_path ::
  "strand \<Rightarrow> real \<Rightarrow> nat \<times> node set \<Rightarrow> transcript_graph list \<Rightarrow> py_error + transcript_graph list" where
  "add_partial_path strand_arg sc item strand_graphs =
     bind_res (nth_res strand_graphs (fst item)) (\<lambda>tg.
       Inr (strand_graphs[fst item := add_score_to_path tg (path_tuple strand_arg (snd item)) sc]))"

text \<open>
  The body of the loop of lines 298--317, for one transcript.  The nodes are taken from
  the generator before they are binned; which exception is reported when both a split and
  a dictionary access would raise is not followed.
\<close>

definition map_transcript_path ::
  "strand \<Rightarrow> int list \<Rightarrow> node set \<Rightarrow> (node \<rightharpoonup> node) \<Rightarrow> (node \<rightharpoonup> nat) \<Rightarrow> transcript
     \<Rightarrow> transcript_graph list \<Rightarrow> py_error + transcript_graph list" where
  "map_transcript_path strand_arg boundaries trim_nodes node_chain_map node_subgraph_map t
       strand_graphs =
     bind_res (split_exons t boundaries) (\<lambda>nodes.
     bind_res (fold_res (bin_node trim_nodes node_chain_map node_subgraph_map) nodes [])
       (\<lambda>subgraph_node_map.
     fold_res (add_partial_path strand_arg (score t)) subgraph_node_map strand_graphs))"

definition map_transcript_paths ::
  "strand \<Rightarrow> int list \<Rightarrow> node set \<Rightarrow> (node \<rightharpoonup> node) \<Rightarrow> (node \<rightharpoonup> nat) \<Rightarrow> transcript list
     \<Rightarrow> transcript_graph list \<Rightarrow> py_error + transcript_graph list" where
  "map_transcript_paths strand_arg boundaries trim_nodes node_chain_map node_subgraph_map
       transcript_list strand_graphs =
     fold_res (map_transcript_path strand_arg boundaries trim_nodes node_chain_map
                 node_subgraph_map) transcript_list strand_graphs"


section \<open>The two-phase reference for the score resolution pass\<close>

text \<open>
  The reference follows the specification, section 4.2 step 4 and section 9: every
  transcript of the deferred batch is decided against one snapshot of the node data, the
  one left by steps 2 and 3; only after the whole batch are the scores of the resolved
  transcripts folded into the node data.

  Phase A: the decision for each transcript of the batch, read from the snapshot only.
\<close>

definition score_decisions ::
  "real \<Rightarrow> int list \<Rightarrow> node_dict \<Rightarrow> transcript list \<Rightarrow> nat list
     \<Rightarrow> py_error + (nat \<times> node list \<times> strand) list" where
  "score_decisions eps boundaries snapshot ts batch =
     map_res (\<lambda>i. bind_res (split_exons (ts ! i) boundaries) (\<lambda>nodes.
                Inr (i, nodes, fst (resolve_strand eps nodes snapshot)))) batch"

definition set_strand :: "nat \<times> node list \<times> strand \<Rightarrow> transcript list \<Rightarrow> transcript list" where
  "set_strand d ts = ts[fst d := (ts ! fst d)\<lparr>strand := snd (snd d)\<rparr>]"

text \<open>Phase B follows phase A; the snapshot is the node data of the incoming state.\<close>

definition resolve_unstranded_reference ::
  "real \<Rightarrow> int list \<Rightarrow> resolver_state \<Rightarrow> nat list
     \<Rightarrow> py_error + resolver_state \<times> nat list \<times> node set" where
  "resolve_unstranded_reference eps boundaries st batch =
     (if batch = [] then Inr (st, batch, {})
      else
        bind_res (score_decisions eps boundaries (node_data st) (objs st) batch) (\<lambda>ds.
          let resolved = map fst (filter (\<lambda>d. snd (snd d) \<noteq> NO_STRAND) ds);
              deferred = filter (\<lambda>d. snd (snd d) = NO_STRAND) ds;
              st1 = st\<lparr>objs := fold set_strand ds (objs st)\<rparr>
          in bind_res (fold_res (add_resolved boundaries) resolved st1) (\<lambda>st2.
               Inr (st2, map fst deferred, \<Union> (set (map (\<lambda>d. set (fst (snd d))) deferred))))))"

text \<open>
  Two resolver states that later steps cannot tell apart: equal objects and lists, and
  node data that return the same entry for every read.
\<close>

definition same_reads :: "resolver_state \<Rightarrow> resolver_state \<Rightarrow> bool" where
  "same_reads st1 st2 \<longleftrightarrow>
     objs st1 = objs st2
     \<and> strand_transcript_lists st1 = strand_transcript_lists st2
     \<and> strand_ref_transcripts st1 = strand_ref_transcripts st2
     \<and> nd_read (node_data st1) = nd_read (node_data st2)"

definition same_outcome ::
  "py_error + resolver_state \<times> nat list \<times> node set
     \<Rightarrow> py_error + resolver_state \<times> nat list \<times> node set \<Rightarrow> bool" where
  "same_outcome r1 r2 =
     (case (r1, r2) of
        (Inl e1, Inl e2) \<Rightarrow> e1 = e2
      | (Inr (st1, u1, n1), Inr (st2, u2, n2)) \<Rightarrow> same_reads st1 st2 \<and> u1 = u2 \<and> n1 = n2
      | _ \<Rightarrow> False)"

text \<open>
  \<open>partition_transcripts_by_strand\<close> with the score resolution pass replaced by the
  reference.
\<close>

definition partition_reference ::
  "real \<Rightarrow> cluster_fun \<Rightarrow> transcript list
     \<Rightarrow> py_error + transcript list \<times> (strand \<Rightarrow> nat list) \<times> (nat list \<times> nat list)" where
  "partition_reference eps getregions transcripts =
     (let boundaries = find_exon_boundaries transcripts;
          st0 = \<lparr>objs = transcripts, node_data = Map.empty,
                 strand_transcript_lists = (\<lambda>s. []), strand_ref_transcripts = ([], [])\<rparr>
      in bind_res (fold_res (classify boundaries) [0..<length transcripts] (st0, []))
           (\<lambda>(st1, unresolved_transcripts).
         bind_res (resolve_unstranded_reference eps boundaries st1 unresolved_transcripts)
           (\<lambda>(st2, still_unresolved, unresolved_nodes).
         bind_res (resolve_clusters eps getregions boundaries st2 still_unresolved unresolved_nodes)
           (\<lambda>st3.
         Inr (objs st3, strand_transcript_lists st3, strand_ref_transcripts st3)))))"

section \<open>Auxiliary notions\<close>

text \<open>The sum of the node scores of a graph.\<close>

definition g_score :: "digraph \<Rightarrow> real" where
  "g_score G = (\<Sum>p\<leftarrow>g_nodes G. NODE_SCORE (snd p))"

text \<open>
  The list that \<open>split_exon\<close> yields on a sorted boundary list, written with the
  boundaries strictly inside the exon.
\<close>

definition pieces :: "node \<Rightarrow> int list \<Rightarrow> node list" where
  "pieces e bs = (if fst e = snd e then []
                  else zip (fst e # interior (fst e) (snd e) bs) (interior (fst e) (snd e) bs @ [snd e]))"

section \<open>Example inputs\<close>

definition example_t :: "strand \<Rightarrow> node list \<Rightarrow> real \<Rightarrow> string \<Rightarrow> bool \<Rightarrow> transcript" where
  "example_t s es sc i r =
     \<lparr>chrom = ''chr1'', strand = s, exons = es, score = sc, t_id = i, is_ref = r\<rparr>"

definition tiles_example :: "transcript list" where
  "tiles_example =
     [example_t POS_STRAND [(100, 500)] 1 ''a'' False,
      example_t POS_STRAND [(200, 350)] 1 ''b'' False]"






text \<open>
  A locus that reaches every step of the resolver: a Negative transcript, an unstranded
  one sharing a node with it, an unstranded one sharing a node with the second only, and
  an isolated unstranded one.
\<close>

definition resolver_example :: "transcript list" where
  "resolver_example =
     [example_t NEG_STRAND [(10, 20)] 5 ''a'' False,
      example_t NO_STRAND [(10, 20), (30, 40)] 2 ''b'' False,
      example_t NO_STRAND [(30, 40)] 1 ''c'' False,
      example_t NO_STRAND [(50, 60)] 1 ''d'' False,
      example_t POS_STRAND [(70, 80)] 1 ''r'' True]"

text \<open>The strands of the objects and the five lists of a result, for display.\<close>

definition summary ::
  "py_error + transcript list \<times> (strand \<Rightarrow> nat list) \<times> (nat list \<times> nat list)
     \<Rightarrow> py_error + strand list \<times> nat list \<times> nat list \<times> nat list \<times> nat list \<times> nat list" where
  "summary r =
     (case r of
        Inl e \<Rightarrow> Inl e
      | Inr (ob, l, rf) \<Rightarrow>
          Inr (map strand ob, l POS_STRAND, l NEG_STRAND, l NO_STRAND, fst rf, snd rf))"

section \<open>Properties of the exon splitter\<close>


lemma bisect_right_loop_inv:
  "lo \<le> hi \<Longrightarrow> hi \<le> length a \<Longrightarrow> sorted a \<Longrightarrow>
   (\<forall>i<lo. a ! i \<le> x) \<Longrightarrow> (\<forall>i. hi \<le> i \<longrightarrow> i < length a \<longrightarrow> x < a ! i) \<Longrightarrow>
   bisect_right_loop a x lo hi \<le> length a \<and>
   (\<forall>i<bisect_right_loop a x lo hi. a ! i \<le> x) \<and>
   (\<forall>i. bisect_right_loop a x lo hi \<le> i \<longrightarrow> i < length a \<longrightarrow> x < a ! i)"
proof (induction a x lo hi rule: bisect_right_loop.induct)
  case (1 a x lo hi)
  show ?case
  proof (cases "lo < hi")
    case False
    then have "bisect_right_loop a x lo hi = lo"
      by (subst bisect_right_loop.simps) simp
    with False 1(3-) show ?thesis by simp
  next
    case True
    let ?mid = "(lo + hi) div 2"
    have m: "lo \<le> ?mid" "?mid < hi" using True by auto
    show ?thesis
    proof (cases "x < a ! ?mid")
      case xl: True
      have up: "\<forall>i. ?mid \<le> i \<longrightarrow> i < length a \<longrightarrow> x < a ! i"
      proof (intro allI impI)
        fix i assume "?mid \<le> i" "i < length a"
        then have "a ! ?mid \<le> a ! i" using \<open>sorted a\<close> by (simp add: sorted_nth_mono)
        with xl show "x < a ! i" by simp
      qed
      have "bisect_right_loop a x lo hi = bisect_right_loop a x lo ?mid"
        using True xl by (subst bisect_right_loop.simps) (simp add: Let_def)
      moreover note 1(1)[OF True refl xl m(1) _ \<open>sorted a\<close> 1(6) up]
      ultimately show ?thesis using m 1(4) by simp
    next
      case xg: False
      have lowr: "\<forall>i<?mid + 1. a ! i \<le> x"
      proof (intro allI impI)
        fix i assume "i < ?mid + 1"
        then have "a ! i \<le> a ! ?mid" using \<open>sorted a\<close> m 1(4) by (simp add: sorted_nth_mono)
        with xg show "a ! i \<le> x" by simp
      qed
      have "bisect_right_loop a x lo hi = bisect_right_loop a x (?mid + 1) hi"
        using True xg by (subst bisect_right_loop.simps) (simp add: Let_def)
      moreover note 1(2)[OF True refl xg _ 1(4) \<open>sorted a\<close> lowr 1(7)]
      ultimately show ?thesis using m by simp
    qed
  qed
qed

lemma bisect_left_loop_inv:
  "lo \<le> hi \<Longrightarrow> hi \<le> length a \<Longrightarrow> sorted a \<Longrightarrow>
   (\<forall>i<lo. a ! i < x) \<Longrightarrow> (\<forall>i. hi \<le> i \<longrightarrow> i < length a \<longrightarrow> x \<le> a ! i) \<Longrightarrow>
   bisect_left_loop a x lo hi \<le> length a \<and>
   (\<forall>i<bisect_left_loop a x lo hi. a ! i < x) \<and>
   (\<forall>i. bisect_left_loop a x lo hi \<le> i \<longrightarrow> i < length a \<longrightarrow> x \<le> a ! i)"
proof (induction a x lo hi rule: bisect_left_loop.induct)
  case (1 a x lo hi)
  show ?case
  proof (cases "lo < hi")
    case False
    then have "bisect_left_loop a x lo hi = lo"
      by (subst bisect_left_loop.simps) simp
    with False 1(3-) show ?thesis by simp
  next
    case True
    let ?mid = "(lo + hi) div 2"
    have m: "lo \<le> ?mid" "?mid < hi" using True by auto
    show ?thesis
    proof (cases "a ! ?mid < x")
      case xg: True
      have lowr: "\<forall>i<?mid + 1. a ! i < x"
      proof (intro allI impI)
        fix i assume "i < ?mid + 1"
        then have "a ! i \<le> a ! ?mid" using \<open>sorted a\<close> m 1(4) by (simp add: sorted_nth_mono)
        with xg show "a ! i < x" by simp
      qed
      have "bisect_left_loop a x lo hi = bisect_left_loop a x (?mid + 1) hi"
        using True xg by (subst bisect_left_loop.simps) (simp add: Let_def)
      moreover note 1(1)[OF True refl xg _ 1(4) \<open>sorted a\<close> lowr 1(7)]
      ultimately show ?thesis using m by simp
    next
      case xl: False
      have up: "\<forall>i. ?mid \<le> i \<longrightarrow> i < length a \<longrightarrow> x \<le> a ! i"
      proof (intro allI impI)
        fix i assume "?mid \<le> i" "i < length a"
        then have "a ! ?mid \<le> a ! i" using \<open>sorted a\<close> by (simp add: sorted_nth_mono)
        with xl show "x \<le> a ! i" by simp
      qed
      have "bisect_left_loop a x lo hi = bisect_left_loop a x lo ?mid"
        using True xl by (subst bisect_left_loop.simps) (simp add: Let_def)
      moreover note 1(2)[OF True refl xl m(1) _ \<open>sorted a\<close> 1(6) up]
      ultimately show ?thesis using m 1(4) by simp
    qed
  qed
qed

lemma split_point_filter:
  "r \<le> length a \<Longrightarrow> (\<forall>i<r. P (a ! i)) \<Longrightarrow> (\<forall>i. r \<le> i \<longrightarrow> i < length a \<longrightarrow> \<not> P (a ! i)) \<Longrightarrow>
   take r a = filter P a \<and> drop r a = filter (\<lambda>b. \<not> P b) a"
proof -
  assume r: "r \<le> length a" and lo: "\<forall>i<r. P (a ! i)"
    and hi: "\<forall>i. r \<le> i \<longrightarrow> i < length a \<longrightarrow> \<not> P (a ! i)"
  have t: "\<forall>b\<in>set (take r a). P b"
    using lo r by (auto simp: in_set_conv_nth)
  have d: "\<forall>b\<in>set (drop r a). \<not> P b"
    using hi r by (auto simp: in_set_conv_nth)
  have "filter P a = filter P (take r a) @ filter P (drop r a)"
    by (metis append_take_drop_id filter_append)
  moreover have "filter (\<lambda>b. \<not> P b) a = filter (\<lambda>b. \<not> P b) (take r a) @ filter (\<lambda>b. \<not> P b) (drop r a)"
    by (metis append_take_drop_id filter_append)
  ultimately show ?thesis using t d by (simp add: filter_empty_conv)
qed

lemma bisect_right_sorted:
  assumes "sorted a"
  shows "take (bisect_right a x) a = filter (\<lambda>b. b \<le> x) a"
    and "drop (bisect_right a x) a = filter (\<lambda>b. x < b) a"
    and "bisect_right a x \<le> length a"
proof -
  have inv: "bisect_right a x \<le> length a \<and> (\<forall>i<bisect_right a x. a ! i \<le> x) \<and>
    (\<forall>i. bisect_right a x \<le> i \<longrightarrow> i < length a \<longrightarrow> x < a ! i)"
    unfolding bisect_right_def using assms by (intro bisect_right_loop_inv) auto
  from inv show "bisect_right a x \<le> length a" by simp
  have "take (bisect_right a x) a = filter (\<lambda>b. b \<le> x) a \<and>
        drop (bisect_right a x) a = filter (\<lambda>b. \<not> b \<le> x) a"
    using inv by (intro split_point_filter) auto
  then show "take (bisect_right a x) a = filter (\<lambda>b. b \<le> x) a"
    and "drop (bisect_right a x) a = filter (\<lambda>b. x < b) a"
    by (simp_all add: not_le)
qed

lemma bisect_left_sorted:
  assumes "sorted a"
  shows "take (bisect_left a x) a = filter (\<lambda>b. b < x) a"
    and "drop (bisect_left a x) a = filter (\<lambda>b. x \<le> b) a"
    and "bisect_left a x \<le> length a"
proof -
  have inv: "bisect_left a x \<le> length a \<and> (\<forall>i<bisect_left a x. a ! i < x) \<and>
    (\<forall>i. bisect_left a x \<le> i \<longrightarrow> i < length a \<longrightarrow> x \<le> a ! i)"
    unfolding bisect_left_def using assms by (intro bisect_left_loop_inv) auto
  from inv show "bisect_left a x \<le> length a" by simp
  have "take (bisect_left a x) a = filter (\<lambda>b. b < x) a \<and>
        drop (bisect_left a x) a = filter (\<lambda>b. \<not> b < x) a"
    using inv by (intro split_point_filter) auto
  then show "take (bisect_left a x) a = filter (\<lambda>b. b < x) a"
    and "drop (bisect_left a x) a = filter (\<lambda>b. x \<le> b) a"
    by (simp_all add: not_less)
qed



lemma bind_res_simps [simp]:
  "bind_res (Inl e) f = Inl e" "bind_res (Inr x) f = f x"
  by (simp_all add: bind_res_def)

lemma py_index_nat: "i < length xs \<Longrightarrow> py_index xs (int i) = Inr (xs ! i)"
  by (simp add: py_index_def)

lemma map_res_Inr: "(\<forall>x\<in>set xs. f x = Inr (g x)) \<Longrightarrow> map_res f xs = Inr (map g xs)"
  by (induction xs) simp_all

lemma upto_int_nat: "[int a .. int b - 1] = map int [a..<b]"
proof (induction b)
  case 0
  then show ?case by simp
next
  case (Suc b)
  show ?case
  proof (cases "a \<le> b")
    case True
    then have "[int a .. int (Suc b) - 1] = [int a .. int b - 1] @ [int b]"
      using upto_rec2[of "int a" "int b"] by simp
    with Suc True show ?thesis by simp
  next
    case False
    then show ?thesis by simp
  qed
qed

lemma zip_tl_nth:
  "zip xs (tl xs) = map (\<lambda>k. (xs ! k, xs ! (k + 1))) [0..<length xs - 1]"
  by (rule nth_equalityI) (simp_all add: nth_tl)

lemma interior_slice:
  assumes "sorted bs" "s < e"
  shows "bisect_right bs s \<le> bisect_left bs e"
    and "interior s e bs = take (bisect_left bs e - bisect_right bs s) (drop (bisect_right bs s) bs)"
proof -
  let ?i = "bisect_right bs s" and ?j = "bisect_left bs e"
  have "length (filter (\<lambda>b. b \<le> s) bs) \<le> length (filter (\<lambda>b. b < e) bs)"
    using assms(2)
  proof (induction bs)
    case Nil then show ?case by simp
  next
    case (Cons b bs) then show ?case by auto
  qed
  moreover have "length (take ?i bs) = ?i" "length (take ?j bs) = ?j"
    using bisect_right_sorted(3)[OF assms(1)] bisect_left_sorted(3)[OF assms(1)] by simp_all
  ultimately show le: "?i \<le> ?j"
    using bisect_right_sorted(1)[OF assms(1), of s] bisect_left_sorted(1)[OF assms(1), of e]
    by metis
  have "interior s e bs = filter (\<lambda>b. s < b) (filter (\<lambda>b. b < e) bs)"
    by (simp add: conj_commute)
  then have i1: "interior s e bs = filter (\<lambda>b. s < b) (take ?j bs)"
    by (simp add: bisect_left_sorted(1)[OF assms(1)])
  have a: "take ?j bs = take ?i (take ?j bs) @ drop ?i (take ?j bs)"
    by (rule append_take_drop_id[symmetric])
  have b: "take ?i (take ?j bs) = filter (\<lambda>b. b \<le> s) bs"
    using le by (simp add: min_absorb1 bisect_right_sorted(1)[OF assms(1)])
  have c: "drop ?i (take ?j bs) = take (?j - ?i) (drop ?i bs)"
    by (simp add: drop_take)
  have "take ?j bs = filter (\<lambda>b. b \<le> s) bs @ take (?j - ?i) (drop ?i bs)"
    using a unfolding b c .
  with i1 have "interior s e bs =
      filter (\<lambda>b. s < b) (filter (\<lambda>b. b \<le> s) bs) @ filter (\<lambda>b. s < b) (take (?j - ?i) (drop ?i bs))"
    by simp
  moreover have "filter (\<lambda>b. s < b) (filter (\<lambda>b. b \<le> s) bs) = []"
    by (simp add: filter_empty_conv)
  moreover have "\<forall>b\<in>set (take (?j - ?i) (drop ?i bs)). s < b"
  proof
    fix b assume "b \<in> set (take (?j - ?i) (drop ?i bs))"
    then have "b \<in> set (drop ?i bs)" by (rule in_set_takeD)
    then show "s < b" by (simp add: bisect_right_sorted(2)[OF assms(1)])
  qed
  ultimately show "interior s e bs = take (?j - ?i) (drop ?i bs)"
    by simp
qed

lemma split_exon_sorted:
  assumes "sorted bs" "s < e"
  shows "split_exon (s, e) bs =
     Inr (if interior s e bs = [] then [(s, e)]
          else (s, hd (interior s e bs)) # zip (interior s e bs) (tl (interior s e bs))
                 @ [(last (interior s e bs), e)])"
proof -
  let ?i = "bisect_right bs s" and ?j = "bisect_left bs e"
  let ?inner = "interior s e bs"
  note le = interior_slice(1)[OF assms]
  note sl = interior_slice(2)[OF assms]
  have jl: "?j \<le> length bs" by (rule bisect_left_sorted(3)[OF assms(1)])
  have len: "length ?inner = ?j - ?i" using jl le by (simp add: sl)
  have nth: "\<And>k. k < ?j - ?i \<Longrightarrow> ?inner ! k = bs ! (?i + k)"
    using jl le by (simp add: sl)
  show ?thesis
  proof (cases "?i = ?j")
    case True
    then have "?inner = []" using len by simp
    with True assms(2) show ?thesis by (simp add: split_exon_def)
  next
    case False
    then have lt: "?i < ?j" using le by simp
    then have ne: "?inner \<noteq> []" using len by auto
    have b0: "py_index bs (int ?i) = Inr (hd ?inner)"
      using lt jl nth[of 0] ne by (simp add: py_index_nat hd_conv_nth)
    have j1: "int ?j - 1 = int (?j - 1)" using lt by simp
    have "py_index bs (int (?j - 1)) = Inr (bs ! (?j - 1))"
      using lt jl by (intro py_index_nat) simp
    moreover have "last ?inner = bs ! (?j - 1)"
      using lt nth[of "?j - ?i - 1"] ne len by (simp add: last_conv_nth)
    ultimately have bl: "py_index bs (int ?j - 1) = Inr (last ?inner)"
      by (simp only: j1)
    have rng: "[int ?i .. int ?j - 2] = map int [?i ..< ?j - 1]"
    proof -
      have "int ?j - 2 = int (?j - 1) - 1" using lt by simp
      then show ?thesis by (simp only: upto_int_nat)
    qed
    have mids: "map_res (\<lambda>j. bind_res (py_index bs j) (\<lambda>l.
                  bind_res (py_index bs (j + 1)) (\<lambda>r. Inr (l, r)))) (map int [?i ..< ?j - 1])
          = Inr (map (\<lambda>j. (bs ! nat j, bs ! (nat j + 1))) (map int [?i ..< ?j - 1]))"
    proof (rule map_res_Inr, rule ballI)
      fix x assume "x \<in> set (map int [?i ..< ?j - 1])"
      then obtain k where k: "x = int k" "?i \<le> k" "k < ?j - 1" by auto
      then have "k < length bs" "k + 1 < length bs" using jl by simp_all
      then have "py_index bs (int k) = Inr (bs ! k)" "py_index bs (int (k + 1)) = Inr (bs ! (k + 1))"
        by (simp_all only: py_index_nat)
      then show "bind_res (py_index bs x) (\<lambda>l. bind_res (py_index bs (x + 1)) (\<lambda>r. Inr (l, r)))
          = Inr (bs ! nat x, bs ! (nat x + 1))"
        using k(1) by (simp add: add.commute)
    qed
    have z': "map (\<lambda>k. (bs ! k, bs ! (k + 1))) [?i ..< ?j - 1] = zip ?inner (tl ?inner)"
    proof (rule nth_equalityI)
      show "length (map (\<lambda>k. (bs ! k, bs ! (k + 1))) [?i ..< ?j - 1]) = length (zip ?inner (tl ?inner))"
        using len by simp
    next
      fix k assume "k < length (map (\<lambda>k. (bs ! k, bs ! (k + 1))) [?i ..< ?j - 1])"
      then have k: "k < ?j - 1 - ?i" by simp
      then have "?inner ! k = bs ! (?i + k)" "?inner ! (k + 1) = bs ! (?i + (k + 1))"
        by (simp_all add: nth)
      then show "map (\<lambda>k. (bs ! k, bs ! (k + 1))) [?i ..< ?j - 1] ! k = zip ?inner (tl ?inner) ! k"
        using k len by (simp add: nth_tl)
    qed
    have z: "map (\<lambda>j. (bs ! nat j, bs ! (nat j + 1))) (map int [?i ..< ?j - 1])
        = zip ?inner (tl ?inner)"
      using z' by (simp add: comp_def)
    have mz: "map_res (\<lambda>j. bind_res (py_index bs j) (\<lambda>l.
                  bind_res (py_index bs (j + 1)) (\<lambda>r. Inr (l, r)))) [int ?i .. int ?j - 2]
          = Inr (zip ?inner (tl ?inner))"
      by (simp only: rng mids z)
    have neq: "int ?i \<noteq> int ?j" using False by simp
    show ?thesis
      using assms(2) ne neq
      by (simp add: split_exon_def Let_def b0 bl mz del: of_nat_eq_iff)
  qed
qed



lemma segments_as_zip:
  "(if inner = [] then [(s, e)]
    else (s, hd inner) # zip inner (tl inner) @ [(last inner, e)]) = zip (s # inner) (inner @ [e])"
proof (induction inner arbitrary: s)
  case Nil
  then show ?case by simp
next
  case (Cons x xs)
  from Cons[of x] show ?case by (cases xs) (simp_all split: if_splits)
qed

lemma zip_chain_sum:
  "(\<Sum>p\<leftarrow>zip (s # inner) (inner @ [e]). snd p - fst p) = e - (s::int)"
  by (induction inner arbitrary: s) simp_all

lemma zip_chain_positive:
  "sorted_wrt (<) (s # inner @ [e]) \<Longrightarrow> \<forall>p\<in>set (zip (s # inner) (inner @ [e])). fst p < (snd p :: int)"
proof (induction inner arbitrary: s)
  case Nil
  then show ?case by simp
next
  case (Cons x xs)
  from Cons.prems have "sorted_wrt (<) (x # xs @ [e])" "s < x" by simp_all
  with Cons.IH[of x] show ?case by simp
qed

lemma zip_chain_contiguous:
  "Suc i < length (zip (s # inner) (inner @ [e])) \<Longrightarrow>
   snd (zip (s # inner) (inner @ [e]) ! i) = fst (zip (s # inner) (inner @ [e]) ! Suc i)"
  by (simp add: nth_append)

lemma zip_chain_ends:
  "zip (s # inner) (inner @ [e]) \<noteq> []"
  "fst (hd (zip (s # inner) (inner @ [e]))) = s"
  "snd (last (zip (s # inner) (inner @ [e]))) = e"
proof -
  show "zip (s # inner) (inner @ [e]) \<noteq> []" by (cases inner) simp_all
  show "fst (hd (zip (s # inner) (inner @ [e]))) = s" by (cases inner) simp_all
  have "length (s # inner) = length (inner @ [e])" by simp
  then have "map snd (zip (s # inner) (inner @ [e])) = inner @ [e]" by (rule map_snd_zip)
  then have l: "last (map snd (zip (s # inner) (inner @ [e]))) = e" by simp
  have "zip (s # inner) (inner @ [e]) \<noteq> []" by (cases inner) simp_all
  then have "last (map snd (zip (s # inner) (inner @ [e]))) = snd (last (zip (s # inner) (inner @ [e])))"
    by (rule last_map)
  with l show "snd (last (zip (s # inner) (inner @ [e]))) = e" by simp
qed

lemma find_exon_boundaries_sorted:
  "sorted_wrt (<) (find_exon_boundaries transcripts)"
  "set (find_exon_boundaries transcripts) = set (exon_coords transcripts)"
  by (simp_all add: find_exon_boundaries_def)

lemma interior_chain_sorted:
  assumes "sorted_wrt (<) bs" "s < e"
  shows "sorted_wrt (<) (s # interior s e bs @ [e])"
proof -
  have "sorted_wrt (<) (interior s e bs)"
    using assms(1) by (rule sorted_wrt_filter)
  then show ?thesis using assms(2) by (auto simp: sorted_wrt_append)
qed

text \<open>
  Claim C2.  On a sorted boundary list and an exon with \<open>start \<le> end\<close>, \<open>split_exon\<close>
  yields nothing when \<open>start = end\<close>; the exon itself when no boundary lies strictly
  between its ends; and otherwise the piece from \<open>start\<close> to the first interior
  boundary, every pair of consecutive interior boundaries, and the piece from the last
  interior boundary to \<open>end\<close>.  Exon \<open>(100, 500)\<close> against \<open>[100, 200, 350, 500]\<close> gives
  \<open>(100, 200), (200, 350), (350, 500)\<close>.
\<close>

theorem split_exon_segments:
  "(\<forall>s e bs. sorted bs \<longrightarrow> s \<le> e \<longrightarrow>
      split_exon (s, e) bs =
        Inr (if s = e then []
             else if filter (\<lambda>b. s < b \<and> b < e) bs = [] then [(s, e)]
             else (s, hd (filter (\<lambda>b. s < b \<and> b < e) bs))
                  # zip (filter (\<lambda>b. s < b \<and> b < e) bs) (tl (filter (\<lambda>b. s < b \<and> b < e) bs))
                  @ [(last (filter (\<lambda>b. s < b \<and> b < e) bs), e)]))
   \<and> split_exon (100, 500) [100, 200, 350, 500] = Inr [(100, 200), (200, 350), (350, 500)]"
proof (intro conjI allI impI)
  fix s e :: int and bs :: "int list"
  assume bs: "sorted bs" and se: "s \<le> e"
  show "split_exon (s, e) bs =
        Inr (if s = e then []
             else if filter (\<lambda>b. s < b \<and> b < e) bs = [] then [(s, e)]
             else (s, hd (filter (\<lambda>b. s < b \<and> b < e) bs))
                  # zip (filter (\<lambda>b. s < b \<and> b < e) bs) (tl (filter (\<lambda>b. s < b \<and> b < e) bs))
                  @ [(last (filter (\<lambda>b. s < b \<and> b < e) bs), e)])"
  proof (cases "s = e")
    case True
    then show ?thesis by (simp add: split_exon_def)
  next
    case False
    with se have "s < e" by simp
    from split_exon_sorted[OF bs this] False show ?thesis by simp
  qed
next
  have "sorted [100, 200, 350, 500 :: int]" by simp
  from split_exon_sorted[OF this, of 100 500]
  show "split_exon (100, 500) [100, 200, 350, 500] = Inr [(100, 200), (200, 350), (350, 500)]"
    by simp
qed

theorem split_exon_segments_witness:
  "sorted [100, 200, 350, 500 :: int] \<and> (100::int) \<le> 500
   \<and> split_exon (100, 500) [100, 200, 350, 500] = Inr [(100, 200), (200, 350), (350, 500)]
   \<and> split_exon (7, 7) [1, 7, 9] = Inr []
   \<and> split_exon (200, 350) [100, 200, 350, 500] = Inr [(200, 350)]"
proof -
  have a: "sorted [100, 200, 350, 500 :: int]" "(100::int) \<le> 500" by simp_all
  have b: "sorted [1, 7, 9 :: int]" "(7::int) \<le> 7" by simp_all
  have c: "(200::int) \<le> 350" by simp
  from split_exon_segments have g: "\<And>s e bs. sorted bs \<Longrightarrow> s \<le> e \<Longrightarrow>
      split_exon (s, e) bs =
        Inr (if s = e then []
             else if filter (\<lambda>b. s < b \<and> b < e) bs = [] then [(s, e)]
             else (s, hd (filter (\<lambda>b. s < b \<and> b < e) bs))
                  # zip (filter (\<lambda>b. s < b \<and> b < e) bs) (tl (filter (\<lambda>b. s < b \<and> b < e) bs))
                  @ [(last (filter (\<lambda>b. s < b \<and> b < e) bs), e)])"
    by blast
  show ?thesis using g[OF a] g[OF b] g[OF a(1) c] a by simp
qed

text \<open>
  Claim C3.  For an exon with \<open>start < end\<close> of a transcript of the set, splitting against
  the boundaries of the same set succeeds and the pieces tile the exon: the first piece
  starts at \<open>start\<close>, the last ends at \<open>end\<close>, each piece starts where the one before it
  ends, every piece has positive length (so no two overlap), and the lengths add up to
  \<open>end - start\<close>.
\<close>

theorem split_exon_tiles:
  assumes "t \<in> set transcripts" and "(s, e) \<in> set (exons t)" and "s < e"
  shows "\<exists>ps. split_exon (s, e) (find_exon_boundaries transcripts) = Inr ps
           \<and> ps \<noteq> [] \<and> fst (hd ps) = s \<and> snd (last ps) = e
           \<and> (\<forall>i. Suc i < length ps \<longrightarrow> snd (ps ! i) = fst (ps ! Suc i))
           \<and> (\<forall>p\<in>set ps. fst p < snd p)
           \<and> (\<Sum>p\<leftarrow>ps. snd p - fst p) = e - s"
proof -
  let ?bs = "find_exon_boundaries transcripts"
  let ?inner = "interior s e ?bs"
  let ?ps = "zip (s # ?inner) (?inner @ [e])"
  have st: "sorted_wrt (<) ?bs" by (rule find_exon_boundaries_sorted)
  then have "sorted ?bs" by (simp add: strict_sorted_iff)
  from split_exon_sorted[OF this assms(3)]
  have "split_exon (s, e) ?bs = Inr ?ps" by (simp only: segments_as_zip)
  moreover have "\<forall>i. Suc i < length ?ps \<longrightarrow> snd (?ps ! i) = fst (?ps ! Suc i)"
    by (intro allI impI zip_chain_contiguous)
  moreover have "\<forall>p\<in>set ?ps. fst p < snd p"
    by (rule zip_chain_positive[OF interior_chain_sorted[OF st assms(3)]])
  ultimately show ?thesis
    using zip_chain_ends[of s ?inner e] zip_chain_sum[of s ?inner e] by blast
qed


theorem split_exon_tiles_witness:
  "example_t POS_STRAND [(100, 500)] 1 ''a'' False \<in> set tiles_example
   \<and> (100, 500) \<in> set (exons (example_t POS_STRAND [(100, 500)] 1 ''a'' False))
   \<and> (100::int) < 500
   \<and> (\<exists>ps. split_exon (100, 500) (find_exon_boundaries tiles_example) = Inr ps
           \<and> ps \<noteq> [] \<and> fst (hd ps) = 100 \<and> snd (last ps) = 500
           \<and> (\<forall>i. Suc i < length ps \<longrightarrow> snd (ps ! i) = fst (ps ! Suc i))
           \<and> (\<forall>p\<in>set ps. fst p < snd p)
           \<and> (\<Sum>p\<leftarrow>ps. snd p - fst p) = 500 - 100)"
proof -
  have h1: "example_t POS_STRAND [(100, 500)] 1 ''a'' False \<in> set tiles_example"
    by (simp add: tiles_example_def)
  have h2: "(100, 500) \<in> set (exons (example_t POS_STRAND [(100, 500)] 1 ''a'' False))"
    by (simp add: example_t_def)
  have h3: "(100::int) < 500" by simp
  from split_exon_tiles[OF h1 h2 h3] h1 h2 h3 show ?thesis by blast
qed

section \<open>Properties of the strand vote\<close>


lemma nd_read_getitem [simp]: "nd_read (snd (nd_getitem nd n)) = nd_read nd"
  by (rule ext) (simp add: nd_read_def nd_getitem_def split: option.splits)

lemma nd_read_alt: "nd_read nd n = (case nd n of None \<Rightarrow> node_data_func | Some e \<Rightarrow> e)"
  by (simp add: nd_read_def nd_getitem_def split: option.splits)

lemma resolve_step_eq:
  "resolve_step n (v, nd) =
     (\<lparr>total_pos = total_pos v + score_pos (nd_read nd n) * real_of_int (snd n - fst n),
       total_neg = total_neg v + score_neg (nd_read nd n) * real_of_int (snd n - fst n),
       ref_bp_pos = ref_bp_pos v + (if ref_pos (nd_read nd n) then snd n - fst n else 0),
       ref_bp_neg = ref_bp_neg v + (if ref_neg (nd_read nd n) then snd n - fst n else 0)\<rparr>,
      snd (nd_getitem nd n))"
  by (simp add: resolve_step_def Let_def nd_read_def split: prod.splits)

lemma fold_resolve_step:
  "fold resolve_step nodes (v, nd) = (v', nd') \<Longrightarrow>
     total_pos v' = total_pos v + (\<Sum>n\<leftarrow>nodes. score_pos (nd_read nd n) * real_of_int (snd n - fst n))
   \<and> total_neg v' = total_neg v + (\<Sum>n\<leftarrow>nodes. score_neg (nd_read nd n) * real_of_int (snd n - fst n))
   \<and> ref_bp_pos v' = ref_bp_pos v + (\<Sum>n\<leftarrow>nodes. if ref_pos (nd_read nd n) then snd n - fst n else 0)
   \<and> ref_bp_neg v' = ref_bp_neg v + (\<Sum>n\<leftarrow>nodes. if ref_neg (nd_read nd n) then snd n - fst n else 0)
   \<and> nd_read nd' = nd_read nd"
proof (induction nodes arbitrary: v nd)
  case Nil
  then show ?case by simp
next
  case (Cons n nodes)
  from Cons.prems have "fold resolve_step nodes (resolve_step n (v, nd)) = (v', nd')" by simp
  then show ?case
    unfolding resolve_step_eq
    by (drule_tac Cons.IH) (simp add: algebra_simps)
qed

lemma resolve_strand_read [simp]: "nd_read (snd (resolve_strand eps nodes nd)) = nd_read nd"
proof -
  obtain v' nd' where f: "fold resolve_step nodes
      (\<lparr>total_pos = 0, total_neg = 0, ref_bp_pos = 0, ref_bp_neg = 0\<rparr>, nd) = (v', nd')"
    by (cases "fold resolve_step nodes
      (\<lparr>total_pos = 0, total_neg = 0, ref_bp_pos = 0, ref_bp_neg = 0\<rparr>, nd)") 
  from fold_resolve_step[OF f] f show ?thesis by (simp add: resolve_strand_def)
qed

lemma resolve_strand_value:
  "fst (resolve_strand eps nodes nd) =
     (let tp = (\<Sum>n\<leftarrow>nodes. score_pos (nd_read nd n) * real_of_int (snd n - fst n));
          tn = (\<Sum>n\<leftarrow>nodes. score_neg (nd_read nd n) * real_of_int (snd n - fst n));
          rp = (\<Sum>n\<leftarrow>nodes. if ref_pos (nd_read nd n) then snd n - fst n else 0);
          rn = (\<Sum>n\<leftarrow>nodes. if ref_neg (nd_read nd n) then snd n - fst n else 0)
      in if tp + tn > eps then (if tp \<ge> tn then POS_STRAND else NEG_STRAND)
         else if rp + rn > 0 then (if rp \<ge> rn then POS_STRAND else NEG_STRAND)
         else NO_STRAND)"
proof -
  obtain v' nd' where f: "fold resolve_step nodes
      (\<lparr>total_pos = 0, total_neg = 0, ref_bp_pos = 0, ref_bp_neg = 0\<rparr>, nd) = (v', nd')"
    by (cases "fold resolve_step nodes
      (\<lparr>total_pos = 0, total_neg = 0, ref_bp_pos = 0, ref_bp_neg = 0\<rparr>, nd)") 
  from fold_resolve_step[OF f] f show ?thesis by (simp add: resolve_strand_def Let_def)
qed




section \<open>Properties of the graph builder\<close>






lemma add_edge_props [simp]:
  "g_nodes (add_edge G u v) = g_nodes G" "g_score (add_edge G u v) = g_score G"
  by (simp_all add: add_edge_def g_score_def)

















lemma split_exon_pieces:
  "sorted bs \<Longrightarrow> fst e \<le> snd e \<Longrightarrow> split_exon e bs = Inr (pieces e bs)"
proof (cases "fst e = snd e")
  case True
  then show ?thesis by (simp add: split_exon_def pieces_def)
next
  case False
  assume "sorted bs" "fst e \<le> snd e"
  with False have "split_exon (fst e, snd e) bs = Inr (pieces e bs)"
    using split_exon_sorted[of bs "fst e" "snd e"]
    by (simp only: segments_as_zip pieces_def) simp
  then show ?thesis by simp
qed

lemma pieces_empty_iff: "pieces e bs = [] \<longleftrightarrow> fst e = snd e"
  using zip_chain_ends(1)[of "fst e" "interior (fst e) (snd e) bs" "snd e"]
  by (simp add: pieces_def)

lemma split_exons_pieces:
  assumes "sorted bs" "\<forall>e\<in>set (exons t). fst e \<le> snd e"
  shows "split_exons t bs = Inr (concat (map (\<lambda>e. pieces e bs) (exons t)))"
proof -
  have "map_res (\<lambda>exon. split_exon exon bs) (exons t) = Inr (map (\<lambda>e. pieces e bs) (exons t))"
    using assms by (intro map_res_Inr ballI split_exon_pieces) auto
  then show ?thesis by (simp add: split_exons_def)
qed

lemma split_exons_nonempty_iff:
  assumes "sorted bs" "\<forall>e\<in>set (exons t). fst e \<le> snd e"
  shows "(\<exists>nodes. split_exons t bs = Inr nodes \<and> nodes \<noteq> []) \<longleftrightarrow> (\<exists>e\<in>set (exons t). fst e < snd e)"
proof -
  have "\<And>e. e \<in> set (exons t) \<Longrightarrow> pieces e bs \<noteq> [] \<longleftrightarrow> fst e < snd e"
    using assms(2) by (force simp: pieces_empty_iff)
  then have "(\<exists>e\<in>set (exons t). pieces e bs \<noteq> []) \<longleftrightarrow> (\<exists>e\<in>set (exons t). fst e < snd e)"
    by blast
  then show ?thesis by (simp add: split_exons_pieces[OF assms])
qed

lemma py_index_0_iff: "(\<exists>u. py_index xs 0 = Inr u) \<longleftrightarrow> xs \<noteq> []"
  by (cases xs) (simp_all add: py_index_def)

lemma add_transcript_nodes_ok_iff:
  "(\<exists>G'. add_transcript_nodes sa bs t G = Inr G')
     \<longleftrightarrow> (\<exists>nodes. split_exons t bs = Inr nodes \<and> nodes \<noteq> [])"
proof (cases "split_exons t bs")
  case (Inl e)
  then show ?thesis by (simp add: add_transcript_nodes_def)
next
  case (Inr sn)
  define nodes where "nodes = (if sa = NEG_STRAND then rev sn else sn)"
  have e: "nodes \<noteq> [] \<longleftrightarrow> sn \<noteq> []" by (simp add: nodes_def)
  have "add_transcript_nodes sa bs t G = bind_res (py_index nodes 0) (\<lambda>u.
            Inr (fst (fold (add_path_step nodes (score t)) [1..<length nodes]
                        (add_node_directed G u (score t), u))))"
    by (simp add: add_transcript_nodes_def Inr Let_def nodes_def)
  then have "(\<exists>G'. add_transcript_nodes sa bs t G = Inr G') \<longleftrightarrow> (\<exists>u. py_index nodes 0 = Inr u)"
    by (cases "py_index nodes 0") simp_all
  also have "\<dots> \<longleftrightarrow> sn \<noteq> []" using e by (simp only: py_index_0_iff)
  finally show ?thesis by (simp add: Inr)
qed

lemma fold_res_ok_iff:
  "(\<And>x s. (\<exists>s'. f x s = Inr s') \<longleftrightarrow> P x) \<Longrightarrow>
   (\<exists>s'. fold_res f xs s = Inr s') \<longleftrightarrow> (\<forall>x\<in>set xs. P x)"
proof (induction xs arbitrary: s)
  case Nil
  then show ?case by simp
next
  case (Cons x xs)
  show ?case
  proof (cases "f x s")
    case (Inl e)
    then have "\<not> P x" using Cons.prems[of x s] by simp
    with Inl show ?thesis by simp
  next
    case (Inr s1)
    then have "P x" using Cons.prems[of x s] by auto
    with Inr Cons.IH[OF Cons.prems, of s1] show ?thesis by simp
  qed
qed

lemma create_directed_graph_ok_iff:
  "(\<exists>G. create_directed_graph sa ts = Inr G)
     \<longleftrightarrow> (\<forall>t\<in>set ts. \<exists>nodes. split_exons t (find_exon_boundaries ts) = Inr nodes \<and> nodes \<noteq> [])"
proof -
  let ?G0 = "\<lparr>g_nodes = [], g_edges = [], g_boundaries = []\<rparr>"
  let ?f = "fold_res (add_transcript_nodes sa (find_exon_boundaries ts)) ts ?G0"
  have "(\<exists>G. create_directed_graph sa ts = Inr G) \<longleftrightarrow> (\<exists>G. ?f = Inr G)"
    by (cases ?f) (simp_all add: create_directed_graph_def Let_def)
  also have "\<dots> \<longleftrightarrow> (\<forall>t\<in>set ts. \<exists>nodes. split_exons t (find_exon_boundaries ts) = Inr nodes \<and> nodes \<noteq> [])"
    by (rule fold_res_ok_iff) (rule add_transcript_nodes_ok_iff)
  finally show ?thesis .
qed

lemma add_transcript_nodes_error:
  "add_transcript_nodes sa bs t G = Inl err \<Longrightarrow> sorted bs \<Longrightarrow>
   \<forall>e\<in>set (exons t). fst e \<le> snd e \<Longrightarrow> err = IndexError"
  by (auto simp: add_transcript_nodes_def split_exons_pieces Let_def py_index_def bind_res_def
           split: if_splits sum.splits)

text \<open>
  Claim C9.  \<open>create_directed_graph\<close> returns a graph exactly when every transcript of
  its list yields at least one node after splitting; for exons with \<open>start \<le> end\<close> that
  is exactly when every transcript has an exon with \<open>start < end\<close>.  For a transcript
  whose exons are all degenerate the access \<open>nodes[0]\<close> raises \<open>IndexError\<close>.
\<close>

theorem first_node_access_safe:
  "((\<exists>G. create_directed_graph sa ts = Inr G)
      \<longleftrightarrow> (\<forall>t\<in>set ts. \<exists>nodes. split_exons t (find_exon_boundaries ts) = Inr nodes \<and> nodes \<noteq> []))
   \<and> ((\<forall>t\<in>set ts. \<forall>e\<in>set (exons t). fst e \<le> snd e) \<longrightarrow>
        ((\<exists>G. create_directed_graph sa ts = Inr G)
           \<longleftrightarrow> (\<forall>t\<in>set ts. \<exists>e\<in>set (exons t). fst e < snd e)))
   \<and> ((\<forall>e\<in>set (exons t). fst e = snd e) \<longrightarrow> create_directed_graph sa [t] = Inl IndexError)"
proof (intro conjI impI)
  show "(\<exists>G. create_directed_graph sa ts = Inr G)
      \<longleftrightarrow> (\<forall>t\<in>set ts. \<exists>nodes. split_exons t (find_exon_boundaries ts) = Inr nodes \<and> nodes \<noteq> [])"
    by (rule create_directed_graph_ok_iff)
next
  assume wf: "\<forall>t\<in>set ts. \<forall>e\<in>set (exons t). fst e \<le> snd e"
  have s: "sorted (find_exon_boundaries ts)"
    using find_exon_boundaries_sorted(1)[of ts] by (simp add: strict_sorted_iff)
  have "\<And>t. t \<in> set ts \<Longrightarrow>
      (\<exists>nodes. split_exons t (find_exon_boundaries ts) = Inr nodes \<and> nodes \<noteq> [])
        \<longleftrightarrow> (\<exists>e\<in>set (exons t). fst e < snd e)"
    using wf by (intro split_exons_nonempty_iff[OF s]) simp
  then show "(\<exists>G. create_directed_graph sa ts = Inr G)
           \<longleftrightarrow> (\<forall>t\<in>set ts. \<exists>e\<in>set (exons t). fst e < snd e)"
    by (simp add: create_directed_graph_ok_iff)
next
  assume deg: "\<forall>e\<in>set (exons t). fst e = snd e"
  have s: "sorted (find_exon_boundaries [t])"
    using find_exon_boundaries_sorted(1)[of "[t]"] by (simp add: strict_sorted_iff)
  have wf: "\<forall>e\<in>set (exons t). fst e \<le> snd e" using deg by simp
  have "\<forall>e\<in>set (exons t). pieces e (find_exon_boundaries [t]) = []"
    using deg by (simp add: pieces_empty_iff)
  then have "split_exons t (find_exon_boundaries [t]) = Inr []"
    by (simp add: split_exons_pieces[OF s wf])
  then show "create_directed_graph sa [t] = Inl IndexError"
    by (simp add: create_directed_graph_def add_transcript_nodes_def py_index_def Let_def)
qed


theorem first_node_access_safe_witness:
  "list_all (\<lambda>t. list_all (\<lambda>e. fst e \<le> snd e) (exons t)) tiles_example
   \<and> list_all (\<lambda>t. list_ex (\<lambda>e. fst e < snd e) (exons t)) tiles_example
   \<and> (\<exists>G. create_directed_graph POS_STRAND tiles_example = Inr G)
   \<and> list_all (\<lambda>e. fst e = snd e) (exons (example_t POS_STRAND [(5, 5)] 1 ''d'' False))
   \<and> create_directed_graph POS_STRAND [example_t POS_STRAND [(5, 5)] 1 ''d'' False] = Inl IndexError"
proof -
  have h1: "\<forall>t\<in>set tiles_example. \<forall>e\<in>set (exons t). fst e \<le> snd e"
    by (simp add: tiles_example_def example_t_def)
  have h2: "\<forall>t\<in>set tiles_example. \<exists>e\<in>set (exons t). fst e < snd e"
    by (simp add: tiles_example_def example_t_def)
  have h3: "\<forall>e\<in>set (exons (example_t POS_STRAND [(5, 5)] 1 ''d'' False)). fst e = snd e"
    by (simp add: example_t_def)
  from first_node_access_safe[of POS_STRAND tiles_example "example_t POS_STRAND [(5, 5)] 1 ''d'' False"]
    h1 h2 h3
  have "(\<exists>G. create_directed_graph POS_STRAND tiles_example = Inr G)
     \<and> create_directed_graph POS_STRAND [example_t POS_STRAND [(5, 5)] 1 ''d'' False] = Inl IndexError"
    by blast
  with h1 h2 h3 show ?thesis by (simp add: list_all_iff list_ex_iff)
qed

section \<open>Properties of the GTF parser\<close>














section \<open>Properties of the path mapper\<close>















section \<open>The score resolution pass and its reference\<close>


lemma split_exons_cong: "exons t = exons t' \<Longrightarrow> split_exons t bs = split_exons t' bs"
  by (simp add: split_exons_def)

lemma nd_read_add_score:
  "nd_read (add_score nd n s x) =
     (nd_read nd)(n := (case s of
           POS_STRAND \<Rightarrow> (nd_read nd n)\<lparr>score_pos := score_pos (nd_read nd n) + x\<rparr>
         | NEG_STRAND \<Rightarrow> (nd_read nd n)\<lparr>score_neg := score_neg (nd_read nd n) + x\<rparr>
         | NO_STRAND \<Rightarrow> (nd_read nd n)\<lparr>score_no := score_no (nd_read nd n) + x\<rparr>))"
  by (rule ext) (simp add: nd_read_alt add_score_def nd_getitem_def split: option.splits strand.splits)

lemma nd_read_add_score_cong:
  "nd_read nd1 = nd_read nd2 \<Longrightarrow> nd_read (add_score nd1 n s x) = nd_read (add_score nd2 n s x)"
  by (simp only: nd_read_add_score)

lemma nd_read_fold_add_score_cong:
  "nd_read nd1 = nd_read nd2 \<Longrightarrow>
   nd_read (fold (\<lambda>n d. add_score d n s x) nodes nd1) = nd_read (fold (\<lambda>n d. add_score d n s x) nodes nd2)"
proof (induction nodes arbitrary: nd1 nd2)
  case Nil
  then show ?case by simp
next
  case (Cons n nodes)
  from Cons.prems have "nd_read (add_score nd1 n s x) = nd_read (add_score nd2 n s x)"
    by (rule nd_read_add_score_cong)
  then have "nd_read (fold (\<lambda>n d. add_score d n s x) nodes (add_score nd1 n s x))
           = nd_read (fold (\<lambda>n d. add_score d n s x) nodes (add_score nd2 n s x))"
    by (rule Cons.IH)
  then show ?case by simp
qed

lemma resolve_strand_cong:
  "nd_read nd1 = nd_read nd2 \<Longrightarrow> fst (resolve_strand eps nodes nd1) = fst (resolve_strand eps nodes nd2)"
  by (simp only: resolve_strand_value)

lemma add_transcript_same_reads:
  "same_reads st1 st2 \<Longrightarrow> same_reads (add_transcript i nodes st1) (add_transcript i nodes st2)"
proof -
  assume r: "same_reads st1 st2"
  then have o: "objs st1 = objs st2"
    and l: "strand_transcript_lists st1 = strand_transcript_lists st2"
    and f: "strand_ref_transcripts st1 = strand_ref_transcripts st2"
    and n: "nd_read (node_data st1) = nd_read (node_data st2)"
    by (simp_all add: same_reads_def)
  from nd_read_fold_add_score_cong[OF n]
  have "nd_read (node_data (add_transcript i nodes st1)) = nd_read (node_data (add_transcript i nodes st2))"
    by (simp add: add_transcript_def Let_def o)
  then show ?thesis by (simp add: same_reads_def add_transcript_def Let_def o l f)
qed

lemma add_resolved_same_reads:
  "same_reads st1 st2 \<Longrightarrow>
   rel_sum (=) same_reads (add_resolved bs i st1) (add_resolved bs i st2)"
proof -
  assume r: "same_reads st1 st2"
  then have o: "objs st1 = objs st2" by (simp add: same_reads_def)
  show ?thesis
  proof (cases "split_exons (objs st2 ! i) bs")
    case (Inl e)
    then show ?thesis by (simp add: add_resolved_def o)
  next
    case (Inr nodes)
    then show ?thesis by (simp add: add_resolved_def o add_transcript_same_reads[OF r])
  qed
qed

lemma fold_res_rel:
  assumes "\<And>x s1 s2. R s1 s2 \<Longrightarrow> rel_sum (=) R (f x s1) (g x s2)"
  shows "R s1 s2 \<Longrightarrow> rel_sum (=) R (fold_res f xs s1) (fold_res g xs s2)"
proof (induction xs arbitrary: s1 s2)
  case Nil
  then show ?case by simp
next
  case (Cons x xs)
  note r = assms[OF Cons.prems, of x]
  show ?case
  proof (cases "f x s1")
    case (Inl e1)
    with r show ?thesis by (cases "g x s2") simp_all
  next
    case a: (Inr a)
    with r obtain b where b: "g x s2 = Inr b" and ab: "R a b" by (cases "g x s2") simp_all
    from Cons.IH[OF ab] a b show ?thesis by simp
  qed
qed


lemma exons_strand_update:
  "(\<forall>j. exons (ob ! j) = exons (ts0 ! j)) \<Longrightarrow>
   \<forall>j. exons (ob[i := (ob ! i)\<lparr>strand := s\<rparr>] ! j) = exons (ts0 ! j)"
proof (intro allI)
  fix j
  assume a: "\<forall>j. exons (ob ! j) = exons (ts0 ! j)"
  show "exons (ob[i := (ob ! i)\<lparr>strand := s\<rparr>] ! j) = exons (ts0 ! j)"
  proof (cases "j = i \<and> i < length ob")
    case True
    then show ?thesis using a by simp
  next
    case False
    then have "ob[i := (ob ! i)\<lparr>strand := s\<rparr>] ! j = ob ! j"
      by (cases "j = i") (simp_all add: list_update_beyond)
    then show ?thesis using a by simp
  qed
qed

lemma score_decisions_Cons:
  "score_decisions eps bs snap ts0 (i # U) =
     bind_res (split_exons (ts0 ! i) bs) (\<lambda>nodes.
       bind_res (score_decisions eps bs snap ts0 U) (\<lambda>ds.
         Inr ((i, nodes, fst (resolve_strand eps nodes snap)) # ds)))"
  by (cases "split_exons (ts0 ! i) bs") (simp_all add: score_decisions_def)

lemma resolve_loop_decisions:
  "nd_read (node_data st) = nd_read snap \<Longrightarrow> \<forall>j. exons (objs st ! j) = exons (ts0 ! j) \<Longrightarrow>
   (case score_decisions eps bs snap ts0 U of
      Inl e \<Rightarrow> fold_res (resolve_one eps bs) U (st, res, still, un) = Inl e
    | Inr ds \<Rightarrow>
        (\<exists>st'. fold_res (resolve_one eps bs) U (st, res, still, un)
                = Inr (st', res @ map fst (filter (\<lambda>d. snd (snd d) \<noteq> NO_STRAND) ds),
                       still @ map fst (filter (\<lambda>d. snd (snd d) = NO_STRAND) ds),
                       un \<union> \<Union> (set (map (\<lambda>d. set (fst (snd d)))
                                            (filter (\<lambda>d. snd (snd d) = NO_STRAND) ds))))
           \<and> objs st' = fold set_strand ds (objs st)
           \<and> nd_read (node_data st') = nd_read snap
           \<and> strand_transcript_lists st' = strand_transcript_lists st
           \<and> strand_ref_transcripts st' = strand_ref_transcripts st))"
proof (induction U arbitrary: st res still un)
  case Nil
  then show ?case by (simp add: score_decisions_def)
next
  case (Cons i U)
  have sp: "split_exons (objs st ! i) bs = split_exons (ts0 ! i) bs"
    using Cons.prems(2) by (intro split_exons_cong) simp
  show ?case
  proof (cases "split_exons (ts0 ! i) bs")
    case (Inl e)
    then show ?thesis by (simp add: score_decisions_Cons resolve_one_def sp)
  next
    case (Inr nodes)
    define s where "s = fst (resolve_strand eps nodes snap)"
    define nd' where "nd' = snd (resolve_strand eps nodes (node_data st))"
    have rs: "resolve_strand eps nodes (node_data st) = (s, nd')"
      using resolve_strand_cong[OF Cons.prems(1), of eps nodes]
      by (simp add: s_def nd'_def prod_eq_iff)
    define st1 where "st1 = st\<lparr>objs := (objs st)[i := (objs st ! i)\<lparr>strand := s\<rparr>], node_data := nd'\<rparr>"
    have n1: "nd_read (node_data st1) = nd_read snap"
      using Cons.prems(1) by (simp add: st1_def nd'_def)
    have e1: "\<forall>j. exons (objs st1 ! j) = exons (ts0 ! j)"
      using exons_strand_update[OF Cons.prems(2)] by (simp add: st1_def)
    have o1: "objs st1 = set_strand (i, nodes, s) (objs st)"
      by (simp add: st1_def set_strand_def)
    have l1: "strand_transcript_lists st1 = strand_transcript_lists st"
      "strand_ref_transcripts st1 = strand_ref_transcripts st"
      by (simp_all add: st1_def)
    have step: "resolve_one eps bs i (st, res, still, un) =
        (if s \<noteq> NO_STRAND then Inr (st1, res @ [i], still, un)
         else Inr (st1, res, still @ [i], un \<union> set nodes))"
      by (simp add: resolve_one_def sp Inr rs st1_def Let_def)
    show ?thesis
    proof (cases "score_decisions eps bs snap ts0 U")
      case dl: (Inl e)
      have "fold_res (resolve_one eps bs) U (st1, res @ [i], still, un) = Inl e"
        using Cons.IH[OF n1 e1, of "res @ [i]" still un] dl by simp
      moreover have "fold_res (resolve_one eps bs) U (st1, res, still @ [i], un \<union> set nodes) = Inl e"
        using Cons.IH[OF n1 e1, of res "still @ [i]" "un \<union> set nodes"] dl by simp
      ultimately show ?thesis
        by (simp add: score_decisions_Cons Inr dl step)
    next
      case dr: (Inr ds)
      show ?thesis
      proof (cases "s = NO_STRAND")
        case True
        from Cons.IH[OF n1 e1, of res "still @ [i]" "un \<union> set nodes"] dr
        show ?thesis
          by (simp add: score_decisions_Cons Inr dr step True s_def[symmetric] o1 l1 Un_assoc)
      next
        case False
        from Cons.IH[OF n1 e1, of "res @ [i]" still un] dr
        show ?thesis
          by (simp add: score_decisions_Cons Inr dr step False s_def[symmetric] o1 l1)
      qed
    qed
  qed
qed


lemma same_reads_refl [simp]: "same_reads st st"
  by (simp add: same_reads_def)

lemma score_pass_same_outcome:
  "same_outcome (resolve_unstranded eps bs st batch) (resolve_unstranded_reference eps bs st batch)"
proof (cases "batch = []")
  case True
  then show ?thesis
    by (simp add: resolve_unstranded_def resolve_unstranded_reference_def same_outcome_def)
next
  case False
  have e: "\<forall>j. exons (objs st ! j) = exons (objs st ! j)" by simp
  note L = resolve_loop_decisions[OF refl e, of eps bs batch "[]" "[]" "{}"]
  show ?thesis
  proof (cases "score_decisions eps bs (node_data st) (objs st) batch")
    case (Inl err)
    with L False show ?thesis
      by (simp add: resolve_unstranded_def resolve_unstranded_reference_def same_outcome_def)
  next
    case (Inr ds)
    let ?res = "map fst (filter (\<lambda>d. snd (snd d) \<noteq> NO_STRAND) ds)"
    let ?def = "filter (\<lambda>d. snd (snd d) = NO_STRAND) ds"
    let ?st1 = "st\<lparr>objs := fold set_strand ds (objs st)\<rparr>"
    from L Inr obtain st' where
      f: "fold_res (resolve_one eps bs) batch (st, [], [], {})
            = Inr (st', ?res, map fst ?def, \<Union> (set (map (\<lambda>d. set (fst (snd d))) ?def)))"
      and o: "objs st' = fold set_strand ds (objs st)"
      and n: "nd_read (node_data st') = nd_read (node_data st)"
      and l: "strand_transcript_lists st' = strand_transcript_lists st"
             "strand_ref_transcripts st' = strand_ref_transcripts st"
      by auto
    have sr: "same_reads st' ?st1" by (simp add: same_reads_def o n l)
    have rel: "rel_sum (=) same_reads (fold_res (add_resolved bs) ?res st')
                 (fold_res (add_resolved bs) ?res ?st1)"
      by (rule fold_res_rel[where R = same_reads and f = "add_resolved bs" and g = "add_resolved bs",
            OF add_resolved_same_reads sr])
    have a: "resolve_unstranded eps bs st batch =
        bind_res (fold_res (add_resolved bs) ?res st') (\<lambda>st2.
          Inr (st2, map fst ?def, \<Union> (set (map (\<lambda>d. set (fst (snd d))) ?def))))"
      using False by (simp add: resolve_unstranded_def f)
    have b: "resolve_unstranded_reference eps bs st batch =
        bind_res (fold_res (add_resolved bs) ?res ?st1) (\<lambda>st2.
          Inr (st2, map fst ?def, \<Union> (set (map (\<lambda>d. set (fst (snd d))) ?def))))"
      using False by (simp add: resolve_unstranded_reference_def Inr Let_def)
    show ?thesis
    proof (cases "fold_res (add_resolved bs) ?res st'")
      case l1: (Inl e1)
      with rel show ?thesis
        by (cases "fold_res (add_resolved bs) ?res ?st1") (simp_all add: a b same_outcome_def)
    next
      case r1: (Inr x1)
      with rel show ?thesis
        by (cases "fold_res (add_resolved bs) ?res ?st1") (simp_all add: a b same_outcome_def)
    qed
  qed
qed


lemma assign_region_cong:
  assumes "fst a = fst b" "nd_read (snd a) = nd_read (snd b)"
  shows "rel_sum (=) (\<lambda>a b. fst a = fst b \<and> nd_read (snd a) = nd_read (snd b))
           (assign_region eps uns region a) (assign_region eps uns region b)"
proof (cases "map_res (nth_res uns) (snd (snd region))")
  case (Inl e)
  then show ?thesis by (simp add: assign_region_def)
next
  case (Inr nodes)
  have "fst (resolve_strand eps nodes (snd a)) = fst (resolve_strand eps nodes (snd b))"
    using assms(2) by (rule resolve_strand_cong)
  moreover have "nd_read (snd (resolve_strand eps nodes (snd a)))
      = nd_read (snd (resolve_strand eps nodes (snd b)))"
    using assms(2) by simp
  ultimately show ?thesis
    using assms(1) by (simp add: assign_region_def Inr split_beta Let_def)
qed

lemma cluster_strands_cong:
  assumes "nd_read nd1 = nd_read nd2"
  shows "rel_sum (=) (\<lambda>a b. fst a = fst b \<and> nd_read (snd a) = nd_read (snd b))
           (cluster_strands eps gr un nd1) (cluster_strands eps gr un nd2)"
  unfolding cluster_strands_def Let_def
  by (rule fold_res_rel[where R = "\<lambda>a b. fst a = fst b \<and> nd_read (snd a) = nd_read (snd b)"])
     (simp_all add: assign_region_cong assms)

lemma assign_one_same_reads:
  assumes "same_reads st1 st2"
  shows "rel_sum (=) same_reads (assign_one bs m i st1) (assign_one bs m i st2)"
proof -
  from assms have o: "objs st1 = objs st2" by (simp add: same_reads_def)
  show ?thesis
  proof (cases "split_exons (objs st2 ! i) bs")
    case (Inl e)
    then show ?thesis by (simp add: assign_one_def o)
  next
    case (Inr nodes)
    show ?thesis
    proof (cases "fold_res (strand_bp_step m) nodes (0, 0)")
      case l: (Inl e)
      then show ?thesis by (simp add: assign_one_def o Inr)
    next
      case r: (Inr bp)
      define upd where "upd = (\<lambda>st :: resolver_state.
          if fst bp + snd bp > 0 then
            st\<lparr>objs := (objs st)[i := (objs st ! i)
                   \<lparr>strand := (if fst bp \<ge> snd bp then POS_STRAND else NEG_STRAND)\<rparr>]\<rparr>
          else st)"
      have "same_reads (upd st1) (upd st2)"
        using assms by (simp add: upd_def same_reads_def)
      then have "same_reads (add_transcript i nodes (upd st1)) (add_transcript i nodes (upd st2))"
        by (rule add_transcript_same_reads)
      moreover have "assign_one bs m i st1 = Inr (add_transcript i nodes (upd st1))"
        by (simp add: assign_one_def o Inr r upd_def Let_def)
      moreover have "assign_one bs m i st2 = Inr (add_transcript i nodes (upd st2))"
        by (simp add: assign_one_def Inr r upd_def Let_def)
      ultimately show ?thesis by simp
    qed
  qed
qed

lemma resolve_clusters_same_reads:
  assumes "same_reads st1 st2"
  shows "rel_sum (=) same_reads (resolve_clusters eps gr bs st1 U un)
           (resolve_clusters eps gr bs st2 U un)"
proof (cases "U = []")
  case True
  with assms show ?thesis by (simp add: resolve_clusters_def)
next
  case False
  from assms have n: "nd_read (node_data st1) = nd_read (node_data st2)"
    by (simp add: same_reads_def)
  note c = cluster_strands_cong[OF n, of eps gr un]
  show ?thesis
  proof (cases "cluster_strands eps gr un (node_data st1)")
    case (Inl e)
    with c False show ?thesis
      by (cases "cluster_strands eps gr un (node_data st2)") (simp_all add: resolve_clusters_def)
  next
    case (Inr a)
    with c obtain b where b: "cluster_strands eps gr un (node_data st2) = Inr b"
      and ab: "fst a = fst b" "nd_read (snd a) = nd_read (snd b)"
      by (cases "cluster_strands eps gr un (node_data st2)") simp_all
    have sr: "same_reads (st1\<lparr>node_data := snd a\<rparr>) (st2\<lparr>node_data := snd b\<rparr>)"
      using assms ab(2) by (simp add: same_reads_def)
    have "rel_sum (=) same_reads
            (fold_res (assign_one bs (fst b)) U (st1\<lparr>node_data := snd a\<rparr>))
            (fold_res (assign_one bs (fst b)) U (st2\<lparr>node_data := snd b\<rparr>))"
      by (rule fold_res_rel[where R = same_reads and f = "assign_one bs (fst b)"
            and g = "assign_one bs (fst b)", OF assign_one_same_reads sr])
    then show ?thesis
      using False by (simp add: resolve_clusters_def Inr b ab(1) split_beta)
  qed
qed

lemma partition_eq_reference:
  "partition_transcripts_by_strand eps gr ts = partition_reference eps gr ts"
proof -
  let ?bs = "find_exon_boundaries ts"
  let ?st0 = "\<lparr>objs = ts, node_data = Map.empty,
                 strand_transcript_lists = (\<lambda>s. []), strand_ref_transcripts = ([], [])\<rparr>"
  show ?thesis
  proof (cases "fold_res (classify ?bs) [0..<length ts] (?st0, [])")
    case (Inl e)
    then show ?thesis
      by (simp add: partition_transcripts_by_strand_def partition_reference_def Let_def)
  next
    case (Inr p)
    obtain st1 U where p: "p = (st1, U)" by (cases p)
    note so = score_pass_same_outcome[of eps ?bs st1 U]
    show ?thesis
    proof (cases "resolve_unstranded eps ?bs st1 U")
      case l: (Inl e)
      with so have "resolve_unstranded_reference eps ?bs st1 U = Inl e"
        by (cases "resolve_unstranded_reference eps ?bs st1 U") (simp_all add: same_outcome_def)
      with l show ?thesis
        by (simp add: partition_transcripts_by_strand_def partition_reference_def Let_def Inr p)
    next
      case r: (Inr q)
      obtain st2 still un where q: "q = (st2, still, un)" by (cases q)
      from so r q obtain st2' where
        r': "resolve_unstranded_reference eps ?bs st1 U = Inr (st2', still, un)"
        and sr: "same_reads st2 st2'"
        by (cases "resolve_unstranded_reference eps ?bs st1 U") (auto simp: same_outcome_def)
      note rc = resolve_clusters_same_reads[OF sr, of eps gr ?bs still un]
      have "bind_res (resolve_clusters eps gr ?bs st2 still un)
              (\<lambda>st3. Inr (objs st3, strand_transcript_lists st3, strand_ref_transcripts st3))
          = bind_res (resolve_clusters eps gr ?bs st2' still un)
              (\<lambda>st3. Inr (objs st3, strand_transcript_lists st3, strand_ref_transcripts st3))"
      proof (cases "resolve_clusters eps gr ?bs st2 still un")
        case (Inl e)
        with rc show ?thesis by (cases "resolve_clusters eps gr ?bs st2' still un") simp_all
      next
        case (Inr a)
        with rc show ?thesis
          by (cases "resolve_clusters eps gr ?bs st2' still un") (simp_all add: same_reads_def)
      qed
      then show ?thesis
        using Inr p r q r'
        by (simp add: partition_transcripts_by_strand_def partition_reference_def Let_def)
    qed
  qed
qed


text \<open>
  Claim C7.  The in-place pass of lines 149--163 and the two-phase reference give the same
  outcome on every input: the same exception, or the same deferred batch, the same
  unresolved nodes, the same objects and lists, and node data that answer every read
  alike.  In the reference each transcript of the batch is decided against the node data
  as steps 2 and 3 left them, and the scores of the resolved ones are folded in only
  afterwards.  Consequently the whole of \<open>partition_transcripts_by_strand\<close> returns what
  it returns with the reference in place of the pass.
\<close>

theorem score_pass_refines_reference:
  "same_outcome (resolve_unstranded eps boundaries st batch)
                (resolve_unstranded_reference eps boundaries st batch)
   \<and> partition_transcripts_by_strand eps getregions transcripts
       = partition_reference eps getregions transcripts"
  by (rule conjI[OF score_pass_same_outcome partition_eq_reference])

lemma resolver_example_run:
  "summary (partition_transcripts_by_strand (1 / 10 ^ 10) cluster_regions resolver_example)
     = Inr ([NEG_STRAND, NEG_STRAND, NEG_STRAND, NO_STRAND, POS_STRAND], [], [0, 1, 2], [3], [4], [])"
  by code_simp

theorem score_pass_refines_reference_witness:
  "summary (partition_reference (1 / 10 ^ 10) cluster_regions resolver_example)
     = Inr ([NEG_STRAND, NEG_STRAND, NEG_STRAND, NO_STRAND, POS_STRAND], [], [0, 1, 2], [3], [4], [])"
  using score_pass_refines_reference[THEN conjunct2, of "1 / 10 ^ 10" cluster_regions resolver_example]
        resolver_example_run
  by simp

end
